theory Spec2Isabelle
  imports Complex_Main "HOL-Library.Multiset" "HOL-Library.Word"
begin

section \<open>QPanda-2: SpringRank front end and the noisy state-vector engine\<close>

text \<open>
  The development embeds two functions of \<^verbatim>\<open>Applications/QSpringRank/QSpringRank.cpp\<close>,
  \<^verbatim>\<open>get_rank\<close> and \<^verbatim>\<open>adjacent_matrix_to_hermitian\<close>, as HOL functions and proves
  properties of them. It also models the partition registry of the noisy state-vector
  engine, whose operations \<^verbatim>\<open>NoiseCPUImplQPU.h\<close> declares.

  Conventions of the embedding of \<^verbatim>\<open>QSpringRank.cpp\<close>:
  \<^item> \<^verbatim>\<open>double\<close> is the type \<open>dbl\<close> below: IEEE 754 binary64 values with infinities and NaN,
    and arithmetic that rounds to nearest, ties to even;
  \<^item> \<^verbatim>\<open>qcomplex_t\<close> (\<^verbatim>\<open>std::complex<double>\<close>) is a pair of \<open>dbl\<close>, real part first, and
    \<^verbatim>\<open>QStat\<close> a list of such pairs;
  \<^item> \<^verbatim>\<open>unsigned int\<close> is a \<open>32 word\<close>, so that \<^verbatim>\<open>++index\<close> wraps;
  \<^item> \<^verbatim>\<open>size_t\<close> values (sizes and counts, never incremented past a size here) are \<open>nat\<close>;
  \<^item> output parameters passed by reference are returned as components of the result.
\<close>

subsection \<open>Double-precision arithmetic\<close>

text \<open>
  A \<^verbatim>\<open>double\<close> is a finite value, an infinity or NaN. A finite value is given by the real
  number it denotes; the two signed zeros are one value and all NaN payloads are one NaN.
  The type is wider than the set of doubles (every real is a \<open>Fin\<close>): inputs are not
  required to be representable, every result of an operation is.
\<close>

datatype dbl = Fin real | PosInf | NegInf | NaN

text \<open>
  Rounding of an exact real result to binary64, to nearest with ties to even. \<open>ulp x\<close> is
  the spacing of the doubles around \<open>x\<close>: \<open>2 ^ (e - 52)\<close> for \<open>2 ^ e \<le> \<bar>x\<bar> < 2 ^ (e + 1)\<close>, and
  the subnormal spacing \<open>2 ^ (- 1074)\<close> below \<open>2 ^ (- 1022)\<close>. \<open>round_nearest_even\<close> rounds the
  quotient \<open>x / ulp x\<close> to the nearest integer, to the even one on a tie; \<open>round_dbl\<close> maps a
  rounded magnitude of \<open>2 ^ 1024\<close> or more to the infinity of its sign (overflow).
\<close>

definition round_half_even :: "real \<Rightarrow> int" where
  "round_half_even q =
     (let f = \<lfloor>q\<rfloor>; r = q - of_int f
      in if r < 1 / 2 then f else if 1 / 2 < r then f + 1 else if even f then f else f + 1)"

definition ulp :: "real \<Rightarrow> real" where
  "ulp x = 2 powr of_int (max \<lfloor>log 2 \<bar>x\<bar>\<rfloor> (- 1022) - 52)"

definition round_nearest_even :: "real \<Rightarrow> real" where
  "round_nearest_even x =
     (if x = 0 then 0 else of_int (round_half_even (x / ulp x)) * ulp x)"

definition round_dbl :: "real \<Rightarrow> dbl" where
  "round_dbl x =
     (let r = round_nearest_even x
      in if 2 ^ 1024 \<le> r then PosInf else if r \<le> - (2 ^ 1024) then NegInf else Fin r)"

text \<open>
  Addition, negation and subtraction of doubles. The sum of two finite values is the
  rounded exact sum; \<open>\<infinity> + (- \<infinity>)\<close> and every operation on NaN give NaN. Subtraction is
  addition of the negated operand, which is exact in IEEE arithmetic.
\<close>

fun dadd :: "dbl \<Rightarrow> dbl \<Rightarrow> dbl" where
  "dadd (Fin x) (Fin y) = round_dbl (x + y)"
| "dadd NaN b = NaN"
| "dadd a NaN = NaN"
| "dadd PosInf NegInf = NaN"
| "dadd NegInf PosInf = NaN"
| "dadd PosInf b = PosInf"
| "dadd a PosInf = PosInf"
| "dadd NegInf b = NegInf"
| "dadd a NegInf = NegInf"

fun dneg :: "dbl \<Rightarrow> dbl" where
  "dneg (Fin x) = Fin (- x)"
| "dneg PosInf = NegInf"
| "dneg NegInf = PosInf"
| "dneg NaN = NaN"

definition dsub :: "dbl \<Rightarrow> dbl \<Rightarrow> dbl" where
  "dsub a b = dadd a (dneg b)"

text \<open>
  The comparisons \<^verbatim>\<open>a > b\<close> and \<^verbatim>\<open>a >= b\<close> on doubles: false whenever an operand is NaN.
\<close>

fun dgreater :: "dbl \<Rightarrow> dbl \<Rightarrow> bool" where
  "dgreater (Fin x) (Fin y) = (x > y)"
| "dgreater NaN b = False"
| "dgreater a NaN = False"
| "dgreater a PosInf = False"
| "dgreater PosInf b = True"
| "dgreater NegInf b = False"
| "dgreater a NegInf = True"

fun dgeq :: "dbl \<Rightarrow> dbl \<Rightarrow> bool" where
  "dgeq (Fin x) (Fin y) = (x \<ge> y)"
| "dgeq NaN b = False"
| "dgeq a NaN = False"
| "dgeq PosInf b = True"
| "dgeq a NegInf = True"
| "dgeq a PosInf = False"
| "dgeq NegInf b = False"

text \<open>
  \<^verbatim>\<open>qcomplex_t\<close> and \<^verbatim>\<open>QStat\<close>; \<^verbatim>\<open>c.real()\<close> is \<open>fst c\<close>.
\<close>

type_synonym qcomplex_t = "dbl \<times> dbl"
type_synonym QStat = "qcomplex_t list"

subsection \<open>\<^verbatim>\<open>get_rank\<close> (QSpringRank.cpp, lines 51--73)\<close>

text \<open>\<^verbatim>\<open>using sort_item = std::pair<double, unsigned int>\<close>.\<close>

type_synonym sort_item = "dbl \<times> 32 word"

text \<open>
  The range-for loop of lines 56--63, with its loop state \<^verbatim>\<open>index\<close> and \<^verbatim>\<open>sort_vec\<close>:
  every visited entry is pushed with the current index, then the index is incremented
  and the loop breaks when the incremented index equals \<^verbatim>\<open>element_cnt\<close>. The comparison
  \<^verbatim>\<open>element_cnt == (++index)\<close> converts the 32-bit index to \<^verbatim>\<open>size_t\<close>, which is \<open>unat\<close>.
\<close>

fun collect_items :: "QStat \<Rightarrow> nat \<Rightarrow> 32 word \<Rightarrow> sort_item list \<Rightarrow> sort_item list" where
  "collect_items [] element_cnt index sort_vec = sort_vec"
| "collect_items (i # rest) element_cnt index sort_vec =
     (let sort_vec' = sort_vec @ [(fst i, index)];
          index' = index + 1
      in if element_cnt = unat index' then sort_vec'
         else collect_items rest element_cnt index' sort_vec')"

text \<open>
  The comparator passed to \<^verbatim>\<open>std::sort\<close> at line 64: \<^verbatim>\<open>a.first > b.first\<close>, the comparison
  of doubles.
\<close>

definition rank_greater :: "sort_item \<Rightarrow> sort_item \<Rightarrow> bool" where
  "rank_greater a b = dgreater (fst a) (fst b)"

text \<open>
  \<^verbatim>\<open>std::sort\<close> belongs to the C++ standard library, not to the repository, and the
  order it gives to elements that compare equivalent is unspecified. It is a parameter
  \<open>srt\<close> of the model, constrained only by the contract of \<^verbatim>\<open>std::sort\<close>: when the
  comparator is a strict weak ordering on the elements, the result is a permutation of
  the argument in which no later element compares before an earlier one. With the
  comparator of line 64 that is the case when no key is NaN. When a key is NaN the
  comparator is not a strict weak ordering (1 and 2 are both equivalent to NaN, but not
  to each other), the behaviour of \<^verbatim>\<open>std::sort\<close> is undefined, and the contract says
  nothing.
\<close>

definition std_sort_spec :: "(sort_item list \<Rightarrow> sort_item list) \<Rightarrow> bool" where
  "std_sort_spec srt =
     (\<forall>xs. (\<forall>x\<in>set xs. fst x \<noteq> NaN) \<longrightarrow>
           mset (srt xs) = mset xs \<and> sorted_wrt (\<lambda>a b. \<not> rank_greater b a) (srt xs))"

text \<open>
  \<^verbatim>\<open>get_rank\<close>: collect, sort (line 64), then copy the second components (lines 66--70).
\<close>

definition get_rank :: "(sort_item list \<Rightarrow> sort_item list) \<Rightarrow> QStat \<Rightarrow> nat \<Rightarrow> 32 word list" where
  "get_rank srt hhl_result element_cnt =
     map snd (srt (collect_items hhl_result element_cnt 0 []))"

text \<open>
  One sorting function that meets the contract, an insertion sort with the comparator
  of line 64; it instantiates \<open>srt\<close> where a run of \<open>get_rank\<close> is evaluated.
\<close>

fun insert_item :: "sort_item \<Rightarrow> sort_item list \<Rightarrow> sort_item list" where
  "insert_item x [] = [x]"
| "insert_item x (y # ys) = (if rank_greater x y then x # y # ys else y # insert_item x ys)"

fun insertion_sort :: "sort_item list \<Rightarrow> sort_item list" where
  "insertion_sort [] = []"
| "insertion_sort (x # xs) = insert_item x (insertion_sort xs)"

subsection \<open>\<^verbatim>\<open>adjacent_matrix_to_hermitian\<close> (QSpringRank.cpp, lines 75--143)\<close>

text \<open>
  \<^verbatim>\<open>using AdjacentDataT = double\<close> and
  \<^verbatim>\<open>using AdjacentMatrix = std::vector<std::vector<AdjacentDataT>>\<close>.
\<close>

type_synonym AdjacentMatrix = "dbl list list"

text \<open>
  \<^verbatim>\<open>std::complex<double>::operator-=(double)\<close>, used at line 135: the operand is subtracted
  from the real part and the imaginary part is kept.
\<close>

definition csub_real :: "qcomplex_t \<Rightarrow> dbl \<Rightarrow> qcomplex_t" where
  "csub_real c d = (dsub (fst c) d, snd c)"

text \<open>
  Lines 86--90, the inner loop over \<^verbatim>\<open>j\<close> for one row \<^verbatim>\<open>i\<close>: \<^verbatim>\<open>t\<close> accumulates the row sum
  and \<^verbatim>\<open>k_in.at(j)\<close> accumulates the column sums, each \<^verbatim>\<open>+=\<close> a rounded double addition.
  \<^verbatim>\<open>at\<close> cannot throw: \<^verbatim>\<open>k_in\<close> has \<^verbatim>\<open>rows\<close> entries and \<^verbatim>\<open>j < rows\<close>.
\<close>

definition row_scan :: "AdjacentMatrix \<Rightarrow> nat \<Rightarrow> nat \<Rightarrow> dbl list \<Rightarrow> dbl \<times> dbl list" where
  "row_scan adjacent_mat rows i k_in =
     fold (\<lambda>j (t, k_in). (dadd t (adjacent_mat ! i ! j),
                          k_in[j := dadd (k_in ! j) (adjacent_mat ! i ! j)]))
          [0..<rows] (Fin 0, k_in)"

text \<open>
  Lines 79--92: the outer loop; \<^verbatim>\<open>k_in\<close> starts as \<^verbatim>\<open>rows\<close> zeros, \<^verbatim>\<open>k_out\<close> empty.
\<close>

definition degree_scan :: "AdjacentMatrix \<Rightarrow> nat \<Rightarrow> dbl list \<times> dbl list" where
  "degree_scan adjacent_mat rows =
     fold (\<lambda>i (k_in, k_out).
             case row_scan adjacent_mat rows i k_in of (t, k_in') \<Rightarrow> (k_in', k_out @ [t]))
          [0..<rows] (replicate rows (Fin 0), [])"

text \<open>
  Lines 108--111: \<^verbatim>\<open>b.push_back(k_out[i] - k_in[i])\<close> onto the caller's \<^verbatim>\<open>b\<close>.
\<close>

definition fill_b :: "nat \<Rightarrow> dbl list \<Rightarrow> dbl list \<Rightarrow> dbl list \<Rightarrow> dbl list" where
  "fill_b rows k_in k_out b = fold (\<lambda>i b. b @ [dsub (k_out ! i) (k_in ! i)]) [0..<rows] b"

text \<open>
  Lines 123--126: the diagonal of \<^verbatim>\<open>A\<close>. Assigning the double \<^verbatim>\<open>k_out[i] + k_in[i]\<close> to a
  complex entry sets the imaginary part to zero.
\<close>

definition fill_diagonal :: "nat \<Rightarrow> dbl list \<Rightarrow> dbl list \<Rightarrow> QStat \<Rightarrow> QStat" where
  "fill_diagonal rows k_in k_out A =
     fold (\<lambda>i A. A[rows * i + i := (dadd (k_out ! i) (k_in ! i), Fin 0)]) [0..<rows] A"

text \<open>
  Lines 131--137: \<^verbatim>\<open>A[rows*i + j] -= adjacent_mat[i][j] + adjacent_mat[j][i]\<close>.
\<close>

definition subtract_row :: "AdjacentMatrix \<Rightarrow> nat \<Rightarrow> nat \<Rightarrow> QStat \<Rightarrow> QStat" where
  "subtract_row adjacent_mat rows i A =
     fold (\<lambda>j A. A[rows * i + j :=
                     csub_real (A ! (rows * i + j))
                               (dadd (adjacent_mat ! i ! j) (adjacent_mat ! j ! i))])
          [0..<rows] A"

definition subtract_edges :: "AdjacentMatrix \<Rightarrow> nat \<Rightarrow> QStat \<Rightarrow> QStat" where
  "subtract_edges adjacent_mat rows A = fold (subtract_row adjacent_mat rows) [0..<rows] A"

text \<open>
  The whole function. The caller's \<^verbatim>\<open>A\<close> is cleared and resized to \<^verbatim>\<open>rows*rows\<close>
  value-initialised (zero) entries (lines 121--122), so its old contents are not read.
  The result is the returned \<^verbatim>\<open>int\<close> with the final \<^verbatim>\<open>A\<close> and \<^verbatim>\<open>b\<close>. The function indexes
  \<^verbatim>\<open>adjacent_mat[i][j]\<close> for all \<^verbatim>\<open>i, j < rows\<close> without a check, so it is defined only on
  square input, which \<^verbatim>\<open>get_rank_element_cnt\<close> enforces in the caller.
\<close>

definition adjacent_matrix_to_hermitian ::
  "AdjacentMatrix \<Rightarrow> QStat \<Rightarrow> dbl list \<Rightarrow> int \<times> QStat \<times> dbl list" where
  "adjacent_matrix_to_hermitian adjacent_mat A b =
     (let rows = length adjacent_mat;
          (k_in, k_out) = degree_scan adjacent_mat rows;
          b' = fill_b rows k_in k_out b;
          A0 = replicate (rows * rows) (Fin 0, Fin 0);
          A1 = fill_diagonal rows k_in k_out A0;
          A2 = subtract_edges adjacent_mat rows A1
      in (0, A2, b'))"

text \<open>
  The vocabulary of the statements about \<^verbatim>\<open>adjacent_matrix_to_hermitian\<close>. \<open>row_sum m i\<close> and
  \<open>col_sum m i\<close> are the sums of row \<open>i\<close> and of column \<open>i\<close> in double arithmetic, accumulated
  from zero in index order as the loops do. \<open>dval\<close> is the real number a finite double
  denotes. \<open>integer_weights m\<close> says that every entry of \<open>m\<close> is a finite integer and that
  the absolute values of all entries add up to less than \<open>2 ^ 51\<close>.
\<close>

definition row_sum :: "AdjacentMatrix \<Rightarrow> nat \<Rightarrow> dbl" where
  "row_sum m i = foldl dadd (Fin 0) (map (\<lambda>j. m ! i ! j) [0..<length m])"

definition col_sum :: "AdjacentMatrix \<Rightarrow> nat \<Rightarrow> dbl" where
  "col_sum m j = foldl dadd (Fin 0) (map (\<lambda>i. m ! i ! j) [0..<length m])"

fun dval :: "dbl \<Rightarrow> real" where
  "dval (Fin x) = x"
| "dval PosInf = 0"
| "dval NegInf = 0"
| "dval NaN = 0"

fun is_int_dbl :: "dbl \<Rightarrow> bool" where
  "is_int_dbl (Fin x) = (x \<in> \<int>)"
| "is_int_dbl PosInf = False"
| "is_int_dbl NegInf = False"
| "is_int_dbl NaN = False"

definition abs_total :: "AdjacentMatrix \<Rightarrow> real" where
  "abs_total m = sum_list (map (\<lambda>row. sum_list (map (\<lambda>e. \<bar>dval e\<bar>) row)) m)"

definition integer_weights :: "AdjacentMatrix \<Rightarrow> bool" where
  "integer_weights m = (list_all (list_all is_int_dbl) m \<and> abs_total m < 2 ^ 51)"

subsection \<open>The partition registry of the noisy engine\<close>

text \<open>
  \<^verbatim>\<open>NoiseCPUImplQPU.h\<close> declares the registry \<^verbatim>\<open>vQParam qubit2stat\<close> and the operations
  \<^verbatim>\<open>QGateParam &findgroup(size_t qn)\<close> and
  \<^verbatim>\<open>bool TensorProduct(QGateParam& qgroup0, QGateParam& qgroup1)\<close> (lines 48--57). The type
  \<^verbatim>\<open>QGateParam\<close> and the bodies of the two operations are not in the header, so this part
  of the model follows the specification (sections 3, 4.1 and 7); the names of the header
  are kept. The specification speaks of complex amplitudes, not of their machine
  representation, and so does this part: amplitudes are of type \<open>complex\<close>.
\<close>

text \<open>
  Modelled from the spec: the error taxonomy of section 7, missing from the sources (the
  header only names the result type \<^verbatim>\<open>QError\<close>).
\<close>

datatype engine_error = InvalidQubit | MalformedGate | NonUnitaryGate | MalformedInitialState
  | IncompleteNoiseChannel | NumericalDrift

text \<open>
  Modelled from the spec: the amplitude store of section 3, standing for the missing
  declaration of \<^verbatim>\<open>QGateParam\<close>: the ordered qubit identifiers \<open>qVec\<close> (the identifier at
  position \<open>i\<close> occupies bit \<open>i\<close> of the linear index) and the ordered amplitudes \<open>qstate\<close>,
  \<open>2 ^ k\<close> of them for \<open>k\<close> qubits.
\<close>

record amp_store =
  qVec :: "nat list"
  qstate :: "complex list"

text \<open>
  Modelled from the spec: the partition registry of section 3, standing for the missing
  declaration of \<^verbatim>\<open>vQParam\<close>. It is the collection of the live stores; the store that owns a
  qubit is the one whose \<open>qVec\<close> holds it, so stores do not point back to qubits.
\<close>

type_synonym registry = "amp_store list"

text \<open>
  Modelled from the spec: the body of \<^verbatim>\<open>findgroup\<close> is missing; by section 3 it maps a qubit
  identifier to the store that currently owns it, and yields nothing for an identifier that
  was never allocated.
\<close>

definition findgroup :: "registry \<Rightarrow> nat \<Rightarrow> amp_store option" where
  "findgroup reg qn = find (\<lambda>g. qn \<in> set (qVec g)) reg"

text \<open>
  Modelled from the spec: the Kronecker product of two amplitude sequences (section 4.1),
  part of the missing body of \<^verbatim>\<open>TensorProduct\<close>. The left factor keeps the low bits of the
  index: entry \<open>i0 + length a * i1\<close> is \<open>a ! i0 * b ! i1\<close>.
\<close>

definition kron :: "complex list \<Rightarrow> complex list \<Rightarrow> complex list" where
  "kron a b = concat (map (\<lambda>y. map (\<lambda>x. x * y) a) b)"

text \<open>
  Modelled from the spec: the missing body of \<^verbatim>\<open>TensorProduct\<close>. Section 4.1: the Kronecker
  product of the stores, in an order that preserves each store's internal bit ordering,
  with their qubit-identifier sequences concatenated accordingly.
\<close>

definition TensorProduct :: "amp_store \<Rightarrow> amp_store \<Rightarrow> amp_store" where
  "TensorProduct qgroup0 qgroup1 =
     \<lparr>qVec = qVec qgroup0 @ qVec qgroup1, qstate = kron (qstate qgroup0) (qstate qgroup1)\<rparr>"

text \<open>
  Modelled from the spec: one merge step of the missing \<open>resolve\<close> (section 4.1). The store
  of \<open>q0\<close> absorbs the store of \<open>q\<close> unless they are the same store: the entry of the first
  is replaced by the product and the second store is discarded.
\<close>

definition merge_pair :: "registry \<Rightarrow> nat \<Rightarrow> nat \<Rightarrow> registry" where
  "merge_pair reg q0 q =
     (case (findgroup reg q0, findgroup reg q) of
        (Some g0, Some g1) \<Rightarrow>
          if g0 = g1 then reg
          else map (\<lambda>g. if g = g0 then TensorProduct g0 g1 else g) (filter (\<lambda>g. g \<noteq> g1) reg)
      | _ \<Rightarrow> reg)"

text \<open>
  Modelled from the spec: the loop of the missing \<open>resolve\<close> over the requested qubits, in
  the order of the request.
\<close>

fun merge_all :: "registry \<Rightarrow> nat \<Rightarrow> nat list \<Rightarrow> registry" where
  "merge_all reg q0 [] = reg"
| "merge_all reg q0 (q # qs) = merge_all (merge_pair reg q0 q) q0 qs"

text \<open>
  Modelled from the spec: \<open>resolve(qubits)\<close> of section 4.1, missing from the sources. An
  identifier that is not allocated fails with \<open>InvalidQubit\<close> (section 4.2). The
  specification does not say what a request naming no qubit returns; the model reports it
  as an error as well. The result is the store covering the request and the registry
  after the merges.
\<close>

definition resolve :: "registry \<Rightarrow> nat list \<Rightarrow> engine_error + (amp_store \<times> registry)" where
  "resolve reg qubits =
     (case qubits of
        [] \<Rightarrow> Inl InvalidQubit
      | q0 # rest \<Rightarrow>
          if list_ex (\<lambda>q. findgroup reg q = None) qubits then Inl InvalidQubit
          else (let reg' = merge_all reg q0 rest
                in case findgroup reg' q0 of
                     None \<Rightarrow> Inl InvalidQubit
                   | Some g \<Rightarrow> Inr (g, reg')))"

text \<open>
  Modelled from the spec: ``the distinct stores involved'' of section 4.1, as a list in the
  order in which the request first names them (\<open>seen\<close> holds the stores already listed).
\<close>

fun stores_in_order :: "amp_store list \<Rightarrow> amp_store list \<Rightarrow> amp_store list" where
  "stores_in_order seen [] = []"
| "stores_in_order seen (g # gs) =
     (if g \<in> set seen then stores_in_order seen gs else g # stores_in_order (g # seen) gs)"

text \<open>
  Modelled from the spec: the distinct stores involved in a request (section 4.1), each
  qubit of the request replaced by its owner and the owners listed once, in the order of
  the request.
\<close>

definition distinct_stores :: "registry \<Rightarrow> nat list \<Rightarrow> amp_store list" where
  "distinct_stores reg qubits = stores_in_order [] (map (\<lambda>q. the (findgroup reg q)) qubits)"

text \<open>
  Modelled from the spec: the allocated qubit set of section 3, the union of the stores'
  qubit sets.
\<close>

definition allocated :: "registry \<Rightarrow> nat set" where
  "allocated reg = set (concat (map qVec reg))"

text \<open>
  Modelled from the spec: the registry invariant of section 3. Every allocated identifier
  is in exactly one store and the stores' qubit sets do not overlap, which is distinctness
  of the concatenated identifier sequences; every store holds at least one qubit and
  \<open>2 ^ k\<close> amplitudes for its \<open>k\<close> qubits.
\<close>

definition wf_registry :: "registry \<Rightarrow> bool" where
  "wf_registry reg =
     (distinct (concat (map qVec reg)) \<and>
      list_all (\<lambda>g. qVec g \<noteq> [] \<and> length (qstate g) = 2 ^ length (qVec g)) reg)"

text \<open>
  Modelled from the spec: the per-store part of the invariant of section 3, named for the
  proofs.
\<close>

definition store_ok :: "amp_store \<Rightarrow> bool" where
  "store_ok g = (qVec g \<noteq> [] \<and> length (qstate g) = 2 ^ length (qVec g))"

text \<open>
  Modelled from the spec: the amplitude of the Kronecker product of a list of stores at
  linear index \<open>i\<close>, written by bit fields: the first store reads the low
  \<open>length (qVec g)\<close> bits of \<open>i\<close> as its own index, the next store the bits above them, and
  so on. This is the reference that the iterated \<open>TensorProduct\<close> is compared with.
\<close>

fun kron_amplitude :: "amp_store list \<Rightarrow> nat \<Rightarrow> complex" where
  "kron_amplitude [] i = 1"
| "kron_amplitude (g # gs) i =
     qstate g ! (i mod 2 ^ length (qVec g)) * kron_amplitude gs (i div 2 ^ length (qVec g))"

section \<open>Proofs\<close>

subsection \<open>Double-precision arithmetic\<close>

lemma dadd_commute: "dadd a b = dadd b a"
  by (cases a; cases b) (simp_all add: add.commute)

lemma dgeq_iff_not_greater: "a \<noteq> NaN \<Longrightarrow> b \<noteq> NaN \<Longrightarrow> dgeq a b \<longleftrightarrow> \<not> dgreater b a"
  by (cases a; cases b) auto

lemma not_greater_trans:
  "a \<noteq> NaN \<Longrightarrow> b \<noteq> NaN \<Longrightarrow> c \<noteq> NaN \<Longrightarrow>
   \<not> dgreater b a \<Longrightarrow> \<not> dgreater c b \<Longrightarrow> \<not> dgreater c a"
  by (cases a; cases b; cases c) auto

lemma round_half_even_of_int: "round_half_even (of_int z) = z"
  by (simp add: round_half_even_def)

lemma ulp_pos: "0 < ulp x"
  by (simp add: ulp_def)

lemma round_nearest_even_exact:
  assumes "x \<noteq> 0" and "x / ulp x = of_int z"
  shows "round_nearest_even x = x"
proof -
  have "round_nearest_even x = of_int z * ulp x"
    using assms by (simp add: round_nearest_even_def round_half_even_of_int)
  also have "\<dots> = (x / ulp x) * ulp x" using assms by simp
  also have "\<dots> = x" using ulp_pos[of x] by simp
  finally show ?thesis .
qed

lemma ulp_of_small:
  assumes "1 \<le> \<bar>x\<bar>" and "\<bar>x\<bar> < 2 ^ 53"
  shows "\<exists>n\<le>52. ulp x = 1 / 2 ^ n"
proof -
  let ?e = "\<lfloor>log 2 \<bar>x\<bar>\<rfloor>"
  have pos: "0 < \<bar>x\<bar>" using assms by simp
  have "0 \<le> log 2 \<bar>x\<bar>" using assms(1) by simp
  then have e0: "0 \<le> ?e" by simp
  have "\<bar>x\<bar> < 2 powr 53" using assms(2) by simp
  then have "log 2 \<bar>x\<bar> < 53" using pos by (simp add: log_less_iff)
  then have e52: "?e \<le> 52" by (simp add: floor_le_iff)
  define n where "n = nat (52 - ?e)"
  have n: "n \<le> 52" using e0 unfolding n_def by linarith
  have "max ?e (- 1022) - 52 = - int n" using e0 e52 unfolding n_def by linarith
  then have "ulp x = 2 powr (- real n)" by (simp add: ulp_def)
  also have "\<dots> = 1 / 2 ^ n" by (simp add: powr_minus powr_realpow divide_inverse)
  finally show ?thesis using n by blast
qed

lemma round_nearest_even_int:
  assumes "\<bar>z\<bar> < 2 ^ 53"
  shows "round_nearest_even (of_int z) = of_int z"
proof (cases "z = 0")
  case True
  then show ?thesis by (simp add: round_nearest_even_def)
next
  case False
  let ?x = "of_int z :: real"
  have "1 \<le> \<bar>z\<bar>" using False by linarith
  then have "(of_int 1 :: real) \<le> of_int \<bar>z\<bar>" by (simp only: of_int_le_iff)
  then have a1: "1 \<le> \<bar>?x\<bar>" by simp
  have a2: "\<bar>?x\<bar> < 2 ^ 53"
  proof -
    have "\<bar>?x\<bar> = of_int \<bar>z\<bar>" by simp
    also have "\<dots> < of_int (2 ^ 53)" using assms by (simp only: of_int_less_iff)
    finally show ?thesis by simp
  qed
  obtain n where n: "ulp ?x = 1 / 2 ^ n" using ulp_of_small[OF a1 a2] by blast
  have q: "?x / ulp ?x = of_int (z * 2 ^ n)" unfolding n by simp
  have nz: "?x \<noteq> 0" using False by simp
  show ?thesis by (rule round_nearest_even_exact[OF nz q])
qed

lemma round_dbl_int:
  assumes "\<bar>z\<bar> < 2 ^ 53"
  shows "round_dbl (of_int z) = Fin (of_int z)"
proof -
  have r: "round_nearest_even (of_int z) = of_int z" by (rule round_nearest_even_int[OF assms])
  have "\<bar>of_int z :: real\<bar> = of_int \<bar>z\<bar>" by simp
  also have "\<dots> < of_int (2 ^ 53)" using assms by (simp only: of_int_less_iff)
  finally have b: "\<bar>of_int z :: real\<bar> < 2 ^ 53" by simp
  have "(2::real) ^ 53 < 2 ^ 1024" by simp
  then have "\<bar>of_int z :: real\<bar> < 2 ^ 1024" using b by (rule less_trans[rotated])
  then show ?thesis unfolding round_dbl_def r Let_def by (simp add: abs_less_iff)
qed


lemma round_dbl_0: "round_dbl 0 = Fin 0"
  using round_dbl_int[of 0] by simp

lemma round_dbl_1: "round_dbl 1 = Fin 1"
  using round_dbl_int[of 1] by simp

lemma round_dbl_neg_1: "round_dbl (- 1) = Fin (- 1)"
  using round_dbl_int[of "- 1"] by simp

lemma round_dbl_numeral:
  "(numeral w :: int) < 2 ^ 53 \<Longrightarrow> round_dbl (numeral w) = Fin (numeral w)"
  using round_dbl_int[of "numeral w"] by simp

lemma round_dbl_neg_numeral:
  "(numeral w :: int) < 2 ^ 53 \<Longrightarrow> round_dbl (- numeral w) = Fin (- numeral w)"
  using round_dbl_int[of "- numeral w"] by simp

lemma ulp_binade_53:
  assumes "2 ^ 53 \<le> \<bar>x\<bar>" and "\<bar>x\<bar> < 2 ^ 54"
  shows "ulp x = 2"
proof -
  have pos: "0 < \<bar>x\<bar>" using assms(1) by (rule less_le_trans[rotated]) simp
  have "2 powr of_int 53 \<le> \<bar>x\<bar> \<and> \<bar>x\<bar> < 2 powr of_int (53 + 1)"
    using assms by simp
  then have "\<lfloor>log 2 \<bar>x\<bar>\<rfloor> = 53"
    using floor_log_eq_powr_iff[OF pos, of 2 53] by simp
  then show ?thesis by (simp add: ulp_def)
qed

lemma round_dbl_1e16: "round_dbl 10000000000000000 = Fin 10000000000000000"
proof -
  have u: "ulp 10000000000000000 = 2" by (rule ulp_binade_53) simp_all
  have "round_nearest_even 10000000000000000 = 10000000000000000"
    by (rule round_nearest_even_exact[where z = 5000000000000000]) (simp_all add: u)
  then show ?thesis by (simp add: round_dbl_def)
qed

lemma round_dbl_neg_1e16: "round_dbl (- 10000000000000000) = Fin (- 10000000000000000)"
proof -
  have u: "ulp (- 10000000000000000) = 2" by (rule ulp_binade_53) simp_all
  have "round_nearest_even (- 10000000000000000) = - 10000000000000000"
    by (rule round_nearest_even_exact[where z = "- 5000000000000000"]) (simp_all add: u)
  then show ?thesis by (simp add: round_dbl_def)
qed

lemma round_dbl_1e16_plus_1: "round_dbl 10000000000000001 = Fin 10000000000000000"
proof -
  have u: "ulp 10000000000000001 = 2" by (rule ulp_binade_53) simp_all
  have f: "\<lfloor>10000000000000001 / 2 :: real\<rfloor> = 5000000000000000" by simp
  have "round_half_even (10000000000000001 / 2) = 5000000000000000"
    unfolding round_half_even_def Let_def f by simp
  then have "round_nearest_even 10000000000000001 = 10000000000000000"
    by (simp add: round_nearest_even_def u)
  then show ?thesis by (simp add: round_dbl_def)
qed

lemma is_int_dblE:
  assumes "is_int_dbl d"
  obtains z where "d = Fin (of_int z)"
  using assms by (cases d) (auto elim: Ints_cases)

lemma round_dbl_Ints:
  assumes "x \<in> \<int>" and "\<bar>x\<bar> < 2 ^ 53"
  shows "round_dbl x = Fin x"
proof -
  obtain z where z: "x = of_int z" using assms(1) by (rule Ints_cases)
  have "of_int \<bar>z\<bar> < (of_int (2 ^ 53) :: real)" using assms(2) z by simp
  then have "\<bar>z\<bar> < 2 ^ 53" by (simp only: of_int_less_iff)
  then show ?thesis unfolding z by (rule round_dbl_int)
qed

lemma dadd_int:
  "x \<in> \<int> \<Longrightarrow> y \<in> \<int> \<Longrightarrow> \<bar>x + y\<bar> < 2 ^ 53 \<Longrightarrow> dadd (Fin x) (Fin y) = Fin (x + y)"
  by (simp add: round_dbl_Ints)

lemma dsub_int:
  "x \<in> \<int> \<Longrightarrow> y \<in> \<int> \<Longrightarrow> \<bar>x - y\<bar> < 2 ^ 53 \<Longrightarrow> dsub (Fin x) (Fin y) = Fin (x - y)"
  by (simp add: dsub_def round_dbl_Ints)

lemma foldl_dadd_int:
  assumes "\<forall>e\<in>set es. is_int_dbl e" and "a \<in> \<int>"
    and "\<bar>a\<bar> + sum_list (map (\<lambda>e. \<bar>dval e\<bar>) es) < 2 ^ 53"
  shows "foldl dadd (Fin a) es = Fin (a + sum_list (map dval es))
         \<and> a + sum_list (map dval es) \<in> \<int>"
  using assms
proof (induction es arbitrary: a)
  case Nil
  then show ?case by simp
next
  case (Cons e es)
  obtain z where e: "e = Fin (of_int z)" using Cons.prems(1) by (auto elim: is_int_dblE)
  have nonneg: "0 \<le> sum_list (map (\<lambda>e. \<bar>dval e\<bar>) es)" by (rule sum_list_nonneg) auto
  have b1: "\<bar>a + of_int z\<bar> < 2 ^ 53" using Cons.prems(3) e nonneg by simp
  have step: "dadd (Fin a) e = Fin (a + of_int z)"
    unfolding e using Cons.prems(2) b1 by (intro dadd_int) simp_all
  have a': "a + of_int z \<in> \<int>" using Cons.prems(2) by simp
  have b2: "\<bar>a + of_int z\<bar> + sum_list (map (\<lambda>e. \<bar>dval e\<bar>) es) < 2 ^ 53"
    using Cons.prems(3) e by simp
  have "\<forall>x\<in>set es. is_int_dbl x" using Cons.prems(1) by simp
  from Cons.IH[OF this a' b2] show ?case using step e by (simp add: add.assoc)
qed

lemma member_le_sum_list_real:
  fixes xs :: "real list"
  assumes "\<forall>x\<in>set xs. 0 \<le> x" and "y \<in> set xs"
  shows "y \<le> sum_list xs"
  using assms
proof (induction xs)
  case Nil
  then show ?case by simp
next
  case (Cons x xs)
  have nn: "0 \<le> sum_list xs" using Cons.prems(1) by (intro sum_list_nonneg) simp
  show ?case
  proof (cases "y = x")
    case True
    then show ?thesis using nn by simp
  next
    case False
    then have "y \<le> sum_list xs" using Cons by simp
    then show ?thesis using Cons.prems(1) by simp
  qed
qed

subsection \<open>\<^verbatim>\<open>get_rank\<close>\<close>

lemma dgreater_asym: "dgreater a b \<Longrightarrow> \<not> dgreater b a"
  by (cases a; cases b) auto

lemma mset_insert_item: "mset (insert_item x ys) = add_mset x (mset ys)"
  by (induction ys) auto

lemma set_insert_item: "set (insert_item x ys) = insert x (set ys)"
  by (induction ys) auto

lemma mset_insertion_sort: "mset (insertion_sort xs) = mset xs"
  by (induction xs) (auto simp: mset_insert_item)

lemma sorted_insert_item:
  assumes "fst x \<noteq> NaN" and "\<forall>y\<in>set ys. fst y \<noteq> NaN"
    and "sorted_wrt (\<lambda>a b. \<not> rank_greater b a) ys"
  shows "sorted_wrt (\<lambda>a b. \<not> rank_greater b a) (insert_item x ys)"
  using assms
proof (induction ys)
  case Nil
  then show ?case by simp
next
  case (Cons y ys)
  have ny: "fst y \<noteq> NaN" and nys: "\<forall>z\<in>set ys. fst z \<noteq> NaN" using Cons.prems(2) by simp_all
  have sy: "\<forall>z\<in>set ys. \<not> rank_greater z y" and sys: "sorted_wrt (\<lambda>a b. \<not> rank_greater b a) ys"
    using Cons.prems(3) by simp_all
  show ?case
  proof (cases "rank_greater x y")
    case True
    then have yx: "\<not> rank_greater y x" unfolding rank_greater_def by (rule dgreater_asym)
    have "\<forall>z\<in>set ys. \<not> rank_greater z x"
    proof
      fix z assume z: "z \<in> set ys"
      then have "\<not> dgreater (fst z) (fst y)" using sy by (simp add: rank_greater_def)
      then show "\<not> rank_greater z x"
        unfolding rank_greater_def
        using not_greater_trans[of "fst x" "fst y" "fst z"] Cons.prems(1) ny nys z yx
        by (auto simp: rank_greater_def)
    qed
    then show ?thesis using True yx Cons.prems(3) by simp
  next
    case False
    have "sorted_wrt (\<lambda>a b. \<not> rank_greater b a) (insert_item x ys)"
      by (rule Cons.IH[OF Cons.prems(1) nys sys])
    then show ?thesis using False sy by (simp add: set_insert_item)
  qed
qed

lemma sorted_insertion_sort:
  "\<forall>x\<in>set xs. fst x \<noteq> NaN \<Longrightarrow> sorted_wrt (\<lambda>a b. \<not> rank_greater b a) (insertion_sort xs)"
proof (induction xs)
  case Nil
  then show ?case by simp
next
  case (Cons x xs)
  have "\<forall>y\<in>set (insertion_sort xs). fst y \<noteq> NaN"
    using Cons.prems mset_eq_setD[OF mset_insertion_sort[of xs]] by simp
  then show ?case using Cons by (simp add: sorted_insert_item)
qed

lemma insertion_sort_spec: "std_sort_spec insertion_sort"
  unfolding std_sort_spec_def by (simp add: mset_insertion_sort sorted_insertion_sort)

lemma collect_items_eq:
  "unat index = k \<Longrightarrow> k < n \<Longrightarrow> n < 2 ^ 32 \<Longrightarrow> n - k \<le> length xs \<Longrightarrow>
   collect_items xs n index acc =
     acc @ map (\<lambda>j. (fst (xs ! j), index + of_nat j)) [0..<n - k]"
proof (induction xs arbitrary: index k acc)
  case Nil
  then show ?case by simp
next
  case (Cons x xs)
  have k1: "unat (index + 1) = Suc k"
  proof -
    have "unat (index + 1) = (unat index + 1) mod 2 ^ 32"
      by (simp add: unat_word_ariths)
    also have "\<dots> = Suc k" using Cons.prems by simp
    finally show ?thesis .
  qed
  show ?case
  proof (cases "n = Suc k")
    case True
    then show ?thesis using k1 by (simp add: Let_def)
  next
    case False
    then have lt: "Suc k < n" using Cons.prems by simp
    have len: "n - Suc k \<le> length xs" using Cons.prems by simp
    have "n - k = Suc (n - Suc k)" using lt by simp
    then have up: "[0..<n - k] = 0 # map Suc [0..<n - Suc k]"
      by (simp add: upt_conv_Cons map_Suc_upt del: upt_Suc)
    show ?thesis
      using False k1 Cons.IH[OF k1 lt Cons.prems(3) len, of "acc @ [(fst x, index)]"]
      by (simp add: Let_def up comp_def add.assoc del: upt_Suc)
  qed
qed

lemma collect_items_from_zero:
  assumes "0 < n" "n < 2 ^ 32" "n \<le> length xs"
  shows "collect_items xs n 0 [] = map (\<lambda>j. (fst (xs ! j), word_of_nat j)) [0..<n]"
  using collect_items_eq[of 0 0 n xs "[]"] assms by simp

lemma unat_index: "j < 2 ^ 32 \<Longrightarrow> unat (word_of_nat j :: 32 word) = j"
  by (simp add: unat_of_nat)

text \<open>
  Claim C9 (as amended). For a sorting function that meets the contract of \<^verbatim>\<open>std::sort\<close>,
  a count \<open>element_cnt\<close> with \<open>1 \<le> element_cnt < 2^32\<close> and a vector \<open>hhl_result\<close> of at
  least \<open>element_cnt\<close> entries of which none of the first \<open>element_cnt\<close> has a NaN real
  part, \<open>get_rank\<close> returns exactly \<open>element_cnt\<close> indices, they are a permutation of
  \<open>0, \<dots>, element_cnt - 1\<close>, and the real parts of the entries of \<open>hhl_result\<close> they point
  to are non-increasing along the returned list: each is \<^verbatim>\<open>>=\<close> every later one.
\<close>

theorem get_rank_permutation_nonincreasing:
  assumes srt: "std_sort_spec srt"
    and pos: "0 < element_cnt" and small: "element_cnt < 2 ^ 32"
    and len: "element_cnt \<le> length hhl_result"
    and nonan: "\<forall>c\<in>set (take element_cnt hhl_result). fst c \<noteq> NaN"
  shows "length (get_rank srt hhl_result element_cnt) = element_cnt \<and>
         mset (map unat (get_rank srt hhl_result element_cnt)) = mset [0..<element_cnt] \<and>
         sorted_wrt (\<lambda>i j. dgeq (fst (hhl_result ! unat i)) (fst (hhl_result ! unat j)))
                    (get_rank srt hhl_result element_cnt)"
proof -
  let ?items = "map (\<lambda>j. (fst (hhl_result ! j), word_of_nat j :: 32 word)) [0..<element_cnt]"
  let ?sorted = "srt ?items"
  have idx: "\<And>j. j < element_cnt \<Longrightarrow> unat (word_of_nat j :: 32 word) = j"
    by (rule unat_index) (rule less_trans[OF _ small])
  have nn: "\<And>j. j < element_cnt \<Longrightarrow> fst (hhl_result ! j) \<noteq> NaN"
  proof -
    fix j assume j: "j < element_cnt"
    then have "take element_cnt hhl_result ! j = hhl_result ! j" by simp
    moreover have "take element_cnt hhl_result ! j \<in> set (take element_cnt hhl_result)"
      by (rule nth_mem) (use j len in simp)
    ultimately show "fst (hhl_result ! j) \<noteq> NaN" using nonan by auto
  qed
  have keys: "\<forall>x\<in>set ?items. fst x \<noteq> NaN" using nn by auto
  have rank: "get_rank srt hhl_result element_cnt = map snd ?sorted"
    unfolding get_rank_def collect_items_from_zero[OF pos small len] ..
  have perm: "mset ?sorted = mset ?items"
    and ord: "sorted_wrt (\<lambda>a b. \<not> rank_greater b a) ?sorted"
    using srt keys unfolding std_sort_spec_def by blast+
  have "length ?sorted = length ?items"
    using perm by (rule mset_eq_length)
  then have l: "length (get_rank srt hhl_result element_cnt) = element_cnt"
    unfolding rank by simp
  have "mset (map unat (map snd ?sorted)) = image_mset (unat \<circ> snd) (mset ?sorted)"
    by (simp only: map_map mset_map)
  also have "\<dots> = image_mset (unat \<circ> snd) (mset ?items)"
    by (simp only: perm)
  also have "\<dots> = mset (map (unat \<circ> snd) ?items)"
    by (simp only: mset_map)
  also have "map (unat \<circ> snd) ?items = [0..<element_cnt]"
  proof -
    have "map (unat \<circ> snd) ?items
          = map (\<lambda>j. unat (word_of_nat j :: 32 word)) [0..<element_cnt]"
      by (simp only: map_map comp_def snd_conv)
    also have "\<dots> = map (\<lambda>j. j) [0..<element_cnt]"
      by (rule map_cong[OF refl]) (simp only: idx set_upt atLeastLessThan_iff)
    finally show ?thesis by (simp only: map_ident)
  qed
  finally have p: "mset (map unat (get_rank srt hhl_result element_cnt)) = mset [0..<element_cnt]"
    unfolding rank .
  have key: "\<And>a. a \<in> set ?sorted \<Longrightarrow>
               fst a = fst (hhl_result ! unat (snd a)) \<and> fst a \<noteq> NaN"
  proof -
    fix a assume "a \<in> set ?sorted"
    then have "a \<in> set ?items" using mset_eq_setD[OF perm] by simp
    then obtain j where j: "j < element_cnt" and a: "a = (fst (hhl_result ! j), word_of_nat j)"
      by auto
    show "fst a = fst (hhl_result ! unat (snd a)) \<and> fst a \<noteq> NaN"
      unfolding a using nn[OF j] by (simp only: fst_conv snd_conv idx[OF j] simp_thms)
  qed
  have "sorted_wrt (\<lambda>a b. dgeq (fst (hhl_result ! unat (snd a))) (fst (hhl_result ! unat (snd b)))) ?sorted"
  proof (rule sorted_wrt_mono_rel[OF _ ord])
    fix a b assume a: "a \<in> set ?sorted" and b: "b \<in> set ?sorted" and "\<not> rank_greater b a"
    then have ng: "\<not> dgreater (fst b) (fst a)" by (simp add: rank_greater_def)
    have na: "fst a \<noteq> NaN" and nb: "fst b \<noteq> NaN" using key[OF a] key[OF b] by blast+
    have "dgeq (fst a) (fst b)"
      using dgeq_iff_not_greater[OF na nb] ng by blast
    then show "dgeq (fst (hhl_result ! unat (snd a))) (fst (hhl_result ! unat (snd b)))"
      using key[OF a] key[OF b] by simp
  qed
  then have s: "sorted_wrt (\<lambda>i j. dgeq (fst (hhl_result ! unat i)) (fst (hhl_result ! unat j)))
                    (get_rank srt hhl_result element_cnt)"
    unfolding rank sorted_wrt_map .
  show ?thesis using l p s by blast
qed

text \<open>
  The theorem at a concrete input: the first three of five entries, with real parts 1, 3
  and infinity; the NaN in the fifth entry and in an imaginary part is not read.
\<close>

theorem get_rank_permutation_nonincreasing_witness:
  "std_sort_spec insertion_sort \<and> (0::nat) < 3 \<and> (3::nat) < 2 ^ 32 \<and>
   3 \<le> length [(Fin 1, Fin 0), (Fin 3, Fin 0), (PosInf, NaN), (Fin 5, Fin 0), (NaN, Fin 0)] \<and>
   get_rank insertion_sort [(Fin 1, Fin 0), (Fin 3, Fin 0), (PosInf, NaN), (Fin 5, Fin 0), (NaN, Fin 0)] 3
     = [2, 1, 0] \<and>
   mset (map unat (get_rank insertion_sort
           [(Fin 1, Fin 0), (Fin 3, Fin 0), (PosInf, NaN), (Fin 5, Fin 0), (NaN, Fin 0)] 3))
     = mset [0..<3]"
proof -
  let ?v = "[(Fin 1, Fin 0), (Fin 3, Fin 0), (PosInf, NaN), (Fin 5, Fin 0), (NaN, Fin 0)]"
  have len: "(3::nat) \<le> length ?v" by simp
  have nonan: "\<forall>c\<in>set (take 3 ?v). fst c \<noteq> NaN" by (simp add: numeral_3_eq_3)
  have run: "get_rank insertion_sort ?v 3 = [2, 1, 0]"
    by (simp add: get_rank_def rank_greater_def)
  from get_rank_permutation_nonincreasing[OF insertion_sort_spec _ _ len nonan]
  have "mset (map unat (get_rank insertion_sort ?v 3)) = mset [0..<3]"
    by simp
  with insertion_sort_spec len run show ?thesis by simp
qed

text \<open>
  Without the lower bound the statement fails: for \<open>element_cnt = 0\<close> the incremented
  index of the first entry is 1, not 0, the loop goes on to the end of a one-entry
  vector, and one index is returned instead of none.
\<close>

theorem get_rank_zero_count_counterexample:
  "std_sort_spec insertion_sort \<and> (0::nat) \<le> length [(Fin 1, Fin 0)] \<and>
   get_rank insertion_sort [(Fin 1, Fin 0)] 0 = [0] \<and>
   length (get_rank insertion_sort [(Fin 1, Fin 0)] 0) \<noteq> 0"
  using insertion_sort_spec by (simp add: get_rank_def)

subsection \<open>\<^verbatim>\<open>adjacent_matrix_to_hermitian\<close>\<close>

lemma row_scan_prefix:
  "n \<le> length k_in \<Longrightarrow>
   fold (\<lambda>j (t, k_in). (dadd t (m ! i ! j), k_in[j := dadd (k_in ! j) (m ! i ! j)]))
        [0..<n] (Fin 0, k_in)
   = (foldl dadd (Fin 0) (map (\<lambda>j. m ! i ! j) [0..<n]),
      map (\<lambda>j. if j < n then dadd (k_in ! j) (m ! i ! j) else k_in ! j) [0..<length k_in])"
proof (induction n)
  case 0
  then show ?case by (simp add: map_nth)
next
  case (Suc n)
  let ?old = "map (\<lambda>j. if j < n then dadd (k_in ! j) (m ! i ! j) else k_in ! j) [0..<length k_in]"
  let ?new = "map (\<lambda>j. if j < Suc n then dadd (k_in ! j) (m ! i ! j) else k_in ! j) [0..<length k_in]"
  have n: "n < length k_in" using Suc.prems by simp
  have "?old[n := dadd (?old ! n) (m ! i ! n)] = ?new"
  proof (rule nth_equalityI)
    show "length (?old[n := dadd (?old ! n) (m ! i ! n)]) = length ?new" by simp
  next
    fix p assume "p < length (?old[n := dadd (?old ! n) (m ! i ! n)])"
    then have p: "p < length k_in" by simp
    show "?old[n := dadd (?old ! n) (m ! i ! n)] ! p = ?new ! p"
      using p n by (cases "p = n") (simp_all add: less_Suc_eq)
  qed
  then show ?case using Suc by simp
qed

lemma row_scan_eq:
  "length k_in = rows \<Longrightarrow>
   row_scan m rows i k_in
     = (foldl dadd (Fin 0) (map (\<lambda>j. m ! i ! j) [0..<rows]),
        map (\<lambda>j. dadd (k_in ! j) (m ! i ! j)) [0..<rows])"
  unfolding row_scan_def by (simp add: row_scan_prefix)

lemma degree_scan_prefix:
  "n \<le> rows \<Longrightarrow>
   fold (\<lambda>i (k_in, k_out).
             case row_scan m rows i k_in of (t, k_in') \<Rightarrow> (k_in', k_out @ [t]))
          [0..<n] (replicate rows (Fin 0), [])
   = (map (\<lambda>j. foldl dadd (Fin 0) (map (\<lambda>i. m ! i ! j) [0..<n])) [0..<rows],
      map (\<lambda>i. foldl dadd (Fin 0) (map (\<lambda>j. m ! i ! j) [0..<rows])) [0..<n])"
proof (induction n)
  case 0
  have "replicate rows (Fin 0) = map (\<lambda>j. Fin 0) [0..<rows]"
    by (simp add: map_replicate_const)
  then show ?case by simp
next
  case (Suc n)
  then show ?case by (simp add: row_scan_eq)
qed

lemma degree_scan_eq:
  "degree_scan m (length m) = (map (col_sum m) [0..<length m], map (row_sum m) [0..<length m])"
  unfolding degree_scan_def row_sum_def col_sum_def by (simp add: degree_scan_prefix)

lemma fill_b_eq: "fill_b rows k_in k_out b = b @ map (\<lambda>i. dsub (k_out ! i) (k_in ! i)) [0..<rows]"
  unfolding fill_b_def by (induction rows) simp_all

lemma diag_index_lt: "n < rows \<Longrightarrow> rows * n + n < rows * (rows::nat)"
proof -
  assume n: "n < rows"
  then have "Suc n \<le> rows" by simp
  then have "rows * Suc n \<le> rows * rows" by (rule mult_le_mono2)
  moreover have "rows * n + n < rows * Suc n" using n by simp
  ultimately show ?thesis by simp
qed

lemma cell_index_lt: "i < rows \<Longrightarrow> j < rows \<Longrightarrow> rows * i + j < rows * (rows::nat)"
proof -
  assume i: "i < rows" and j: "j < rows"
  have "rows * i + j < rows * Suc i" using j by simp
  also have "\<dots> \<le> rows * rows" using i by (intro mult_le_mono2) simp
  finally show ?thesis .
qed

lemma cell_index_iff:
  "j < rows \<Longrightarrow> (p div rows = i \<and> p mod rows = j) \<longleftrightarrow> p = rows * i + (j::nat)"
proof
  assume "j < rows" "p div rows = i \<and> p mod rows = j"
  then show "p = rows * i + j" by (metis mult_div_mod_eq)
next
  assume "j < rows" "p = rows * i + j"
  then show "p div rows = i \<and> p mod rows = j" by simp
qed

lemma div_lt_rows: "p < rows * rows \<Longrightarrow> p div rows < (rows::nat)"
  by (simp add: less_mult_imp_div_less mult.commute)

lemma fill_diagonal_prefix:
  "n \<le> rows \<Longrightarrow> length A = rows * rows \<Longrightarrow>
   fold (\<lambda>i A. A[rows * i + i := (d i, Fin 0)]) [0..<n] A
   = map (\<lambda>p. if p mod rows = p div rows \<and> p div rows < n
               then (d (p div rows), Fin 0) else A ! p)
         [0..<rows * rows]"
proof (induction n)
  case 0
  then show ?case using map_nth[of A] by simp
next
  case (Suc n)
  let ?f = "\<lambda>k p. if p mod rows = p div rows \<and> p div rows < k
               then (d (p div rows), Fin 0) else A ! p"
  have n: "n < rows" using Suc.prems by simp
  have lt: "rows * n + n < rows * rows" by (rule diag_index_lt[OF n])
  have "(map (?f n) [0..<rows * rows])[rows * n + n := (d n, Fin 0)]
        = map (?f (Suc n)) [0..<rows * rows]"
  proof (rule nth_equalityI)
    show "length ((map (?f n) [0..<rows * rows])[rows * n + n := (d n, Fin 0)])
          = length (map (?f (Suc n)) [0..<rows * rows])" by simp
  next
    fix p assume "p < length ((map (?f n) [0..<rows * rows])[rows * n + n := (d n, Fin 0)])"
    then have p: "p < rows * rows" by simp
    show "(map (?f n) [0..<rows * rows])[rows * n + n := (d n, Fin 0)] ! p
          = map (?f (Suc n)) [0..<rows * rows] ! p"
    proof (cases "p = rows * n + n")
      case True
      then show ?thesis using p n by simp
    next
      case False
      then have "\<not> (p div rows = n \<and> p mod rows = n)"
        using cell_index_iff[OF n, of p n] by simp
      then show ?thesis using p False by (auto simp: less_Suc_eq)
    qed
  qed
  then show ?case using Suc n by simp
qed

lemma fill_diagonal_eq:
  assumes len: "length A = rows * rows"
  shows "fill_diagonal rows k_in k_out A
   = map (\<lambda>p. if p mod rows = p div rows
               then (dadd (k_out ! (p div rows)) (k_in ! (p div rows)), Fin 0) else A ! p)
         [0..<rows * rows]"
proof -
  have "fill_diagonal rows k_in k_out A
        = map (\<lambda>p. if p mod rows = p div rows \<and> p div rows < rows
               then (dadd (k_out ! (p div rows)) (k_in ! (p div rows)), Fin 0) else A ! p)
         [0..<rows * rows]"
    unfolding fill_diagonal_def
    by (rule fill_diagonal_prefix[where d = "\<lambda>i. dadd (k_out ! i) (k_in ! i)"]) (simp_all add: len)
  also have "\<dots> = map (\<lambda>p. if p mod rows = p div rows
               then (dadd (k_out ! (p div rows)) (k_in ! (p div rows)), Fin 0) else A ! p)
         [0..<rows * rows]"
    by (rule map_cong[OF refl]) (simp add: div_lt_rows)
  finally show ?thesis .
qed

lemma subtract_row_prefix:
  "n \<le> rows \<Longrightarrow> i < rows \<Longrightarrow> length A = rows * rows \<Longrightarrow>
   fold (\<lambda>j A. A[rows * i + j := csub_real (A ! (rows * i + j)) (e i j)]) [0..<n] A
   = map (\<lambda>p. if p div rows = i \<and> p mod rows < n
               then csub_real (A ! p) (e i (p mod rows))
               else A ! p)
         [0..<rows * rows]"
proof (induction n)
  case 0
  then show ?case using map_nth[of A] by simp
next
  case (Suc n)
  let ?f = "\<lambda>k p. if p div rows = i \<and> p mod rows < k
               then csub_real (A ! p) (e i (p mod rows))
               else A ! p"
  let ?old = "map (?f n) [0..<rows * rows]"
  have n: "n < rows" using Suc.prems by simp
  have lt: "rows * i + n < rows * rows" by (rule cell_index_lt[OF Suc.prems(2) n])
  have "?old[rows * i + n := csub_real (?old ! (rows * i + n)) (e i n)]
        = map (?f (Suc n)) [0..<rows * rows]"
  proof (rule nth_equalityI)
    show "length (?old[rows * i + n := csub_real (?old ! (rows * i + n)) (e i n)])
          = length (map (?f (Suc n)) [0..<rows * rows])" by simp
  next
    fix p assume "p < length (?old[rows * i + n := csub_real (?old ! (rows * i + n)) (e i n)])"
    then have p: "p < rows * rows" by simp
    show "?old[rows * i + n := csub_real (?old ! (rows * i + n)) (e i n)] ! p
          = map (?f (Suc n)) [0..<rows * rows] ! p"
    proof (cases "p = rows * i + n")
      case True
      then show ?thesis using p n by simp
    next
      case False
      then have "\<not> (p div rows = i \<and> p mod rows = n)"
        using cell_index_iff[OF n, of p i] by simp
      then show ?thesis using p False by (auto simp: less_Suc_eq)
    qed
  qed
  then show ?case using Suc n by simp
qed

lemma subtract_row_eq:
  assumes i: "i < rows" and len: "length A = rows * rows"
  shows "subtract_row m rows i A
   = map (\<lambda>p. if p div rows = i
               then csub_real (A ! p) (dadd (m ! i ! (p mod rows)) (m ! (p mod rows) ! i))
               else A ! p)
         [0..<rows * rows]"
proof -
  have "subtract_row m rows i A
        = map (\<lambda>p. if p div rows = i \<and> p mod rows < rows
               then csub_real (A ! p) (dadd (m ! i ! (p mod rows)) (m ! (p mod rows) ! i))
               else A ! p)
         [0..<rows * rows]"
    unfolding subtract_row_def
    by (rule subtract_row_prefix[where e = "\<lambda>i j. dadd (m ! i ! j) (m ! j ! i)"])
       (simp_all add: i len)
  also have "\<dots> = map (\<lambda>p. if p div rows = i
               then csub_real (A ! p) (dadd (m ! i ! (p mod rows)) (m ! (p mod rows) ! i))
               else A ! p)
         [0..<rows * rows]"
    using i by (intro map_cong[OF refl]) simp
  finally show ?thesis .
qed

lemma subtract_edges_prefix:
  "n \<le> rows \<Longrightarrow> length A = rows * rows \<Longrightarrow>
   fold (subtract_row m rows) [0..<n] A
   = map (\<lambda>p. if p div rows < n
               then csub_real (A ! p)
                      (dadd (m ! (p div rows) ! (p mod rows)) (m ! (p mod rows) ! (p div rows)))
               else A ! p)
         [0..<rows * rows]"
proof (induction n)
  case 0
  then show ?case using map_nth[of A] by simp
next
  case (Suc n)
  let ?f = "\<lambda>k p. if p div rows < k
               then csub_real (A ! p)
                      (dadd (m ! (p div rows) ! (p mod rows)) (m ! (p mod rows) ! (p div rows)))
               else A ! p"
  let ?old = "map (?f n) [0..<rows * rows]"
  have n: "n < rows" using Suc.prems by simp
  have IH: "fold (subtract_row m rows) [0..<n] A = ?old"
    using Suc by simp
  have "subtract_row m rows n ?old
        = map (\<lambda>p. if p div rows = n
               then csub_real (?old ! p) (dadd (m ! n ! (p mod rows)) (m ! (p mod rows) ! n))
               else ?old ! p)
         [0..<rows * rows]"
    by (rule subtract_row_eq) (simp_all add: n)
  also have "\<dots> = map (?f (Suc n)) [0..<rows * rows]"
    by (rule map_cong[OF refl]) (auto simp: less_Suc_eq)
  finally have "subtract_row m rows n ?old = map (?f (Suc n)) [0..<rows * rows]" .
  then show ?case using IH by simp
qed

lemma subtract_edges_eq:
  assumes len: "length A = rows * rows"
  shows "subtract_edges m rows A
   = map (\<lambda>p. csub_real (A ! p)
                 (dadd (m ! (p div rows) ! (p mod rows)) (m ! (p mod rows) ! (p div rows))))
         [0..<rows * rows]"
proof -
  have "subtract_edges m rows A
        = map (\<lambda>p. if p div rows < rows
               then csub_real (A ! p)
                      (dadd (m ! (p div rows) ! (p mod rows)) (m ! (p mod rows) ! (p div rows)))
               else A ! p)
         [0..<rows * rows]"
    unfolding subtract_edges_def by (rule subtract_edges_prefix) (simp_all add: len)
  also have "\<dots> = map (\<lambda>p. csub_real (A ! p)
                 (dadd (m ! (p div rows) ! (p mod rows)) (m ! (p mod rows) ! (p div rows))))
         [0..<rows * rows]"
    by (rule map_cong[OF refl]) (simp add: div_lt_rows)
  finally show ?thesis .
qed

lemma hermitian_entries:
  "adjacent_matrix_to_hermitian m A b =
     (0,
      map (\<lambda>p. csub_real
                  (if p mod length m = p div length m
                   then (dadd (row_sum m (p div length m)) (col_sum m (p div length m)), Fin 0)
                   else (Fin 0, Fin 0))
                  (dadd (m ! (p div length m) ! (p mod length m))
                        (m ! (p mod length m) ! (p div length m))))
          [0..<length m * length m],
      b @ map (\<lambda>i. dsub (row_sum m i) (col_sum m i)) [0..<length m])"
proof -
  let ?rows = "length m"
  let ?kin = "map (col_sum m) [0..<?rows]"
  let ?kout = "map (row_sum m) [0..<?rows]"
  let ?A1 = "fill_diagonal ?rows ?kin ?kout (replicate (?rows * ?rows) (Fin 0, Fin 0))"
  have b: "fill_b ?rows ?kin ?kout b = b @ map (\<lambda>i. dsub (row_sum m i) (col_sum m i)) [0..<?rows]"
    unfolding fill_b_eq by (simp cong: map_cong)
  have A1: "?A1 = map (\<lambda>p. if p mod ?rows = p div ?rows
               then (dadd (row_sum m (p div ?rows)) (col_sum m (p div ?rows)), Fin 0)
               else (Fin 0, Fin 0))
         [0..<?rows * ?rows]"
    unfolding fill_diagonal_eq[of "replicate (?rows * ?rows) (Fin 0, Fin 0)" ?rows, simplified]
    by (rule map_cong[OF refl]) (simp add: div_lt_rows)
  have A2: "subtract_edges m ?rows ?A1 =
     map (\<lambda>p. csub_real
                  (if p mod ?rows = p div ?rows
                   then (dadd (row_sum m (p div ?rows)) (col_sum m (p div ?rows)), Fin 0)
                   else (Fin 0, Fin 0))
                  (dadd (m ! (p div ?rows) ! (p mod ?rows)) (m ! (p mod ?rows) ! (p div ?rows))))
              [0..<?rows * ?rows]"
    unfolding A1 by (subst subtract_edges_eq) (simp_all cong: map_cong)
  show ?thesis
    unfolding adjacent_matrix_to_hermitian_def Let_def degree_scan_eq prod.case b A2 ..
qed

lemma hermitian_cell:
  assumes "adjacent_matrix_to_hermitian m A0 b0 = (ret, A, b)" and "i < length m" and "j < length m"
  shows "A ! (i * length m + j) =
           csub_real (if i = j then (dadd (row_sum m i) (col_sum m i), Fin 0) else (Fin 0, Fin 0))
                     (dadd (m ! i ! j) (m ! j ! i))"
proof -
  let ?n = "length m"
  have lt: "i * ?n + j < ?n * ?n"
    using cell_index_lt[OF assms(2,3)] by (simp add: mult.commute)
  have n0: "?n \<noteq> 0" using assms(3) by auto
  have dm: "(i * ?n + j) div ?n = i" "(i * ?n + j) mod ?n = j"
    using assms(3) n0 by simp_all
  have "A = map (\<lambda>p. csub_real
                  (if p mod ?n = p div ?n
                   then (dadd (row_sum m (p div ?n)) (col_sum m (p div ?n)), Fin 0)
                   else (Fin 0, Fin 0))
                  (dadd (m ! (p div ?n) ! (p mod ?n)) (m ! (p mod ?n) ! (p div ?n))))
              [0..<?n * ?n]"
    using assms(1) unfolding hermitian_entries by simp
  then have "A ! (i * ?n + j) =
           csub_real (if j = i then (dadd (row_sum m i) (col_sum m i), Fin 0) else (Fin 0, Fin 0))
                     (dadd (m ! i ! j) (m ! j ! i))"
    using lt by (simp only: nth_map length_upt diff_zero nth_upt add_0 dm)
  then show ?thesis by (simp add: eq_commute)
qed

lemma sum_list_upt_conv: "sum_list (map f [0..<n]) = (\<Sum>j<n. f j)" for f :: "nat \<Rightarrow> real"
  by (simp add: interv_sum_list_conv_sum_set_nat atLeast0LessThan)

lemma row_as_map:
  assumes "length row = n"
  shows "map (\<lambda>j. f (row ! j)) [0..<n] = map f row"
  using assms by (intro nth_equalityI) simp_all

lemma integer_entry:
  assumes sq: "\<forall>row\<in>set m. length row = length m" and iw: "integer_weights m"
    and i: "i < length m" and j: "j < length m"
  shows "is_int_dbl (m ! i ! j)" and "\<bar>dval (m ! i ! j)\<bar> \<le> abs_total m"
    and "sum_list (map (\<lambda>e. \<bar>dval e\<bar>) (m ! i)) \<le> abs_total m"
proof -
  have mi: "m ! i \<in> set m" using i by simp
  then have len: "length (m ! i) = length m" using sq by blast
  then have mij: "m ! i ! j \<in> set (m ! i)" using j by simp
  show "is_int_dbl (m ! i ! j)"
    using iw mi mij unfolding integer_weights_def list_all_iff by blast
  have rows: "sum_list (map (\<lambda>e. \<bar>dval e\<bar>) (m ! i)) \<le> abs_total m"
    unfolding abs_total_def
  proof (rule member_le_sum_list_real)
    show "\<forall>x\<in>set (map (\<lambda>row. sum_list (map (\<lambda>e. \<bar>dval e\<bar>) row)) m). 0 \<le> x"
      by (auto intro!: sum_list_nonneg)
    show "sum_list (map (\<lambda>e. \<bar>dval e\<bar>) (m ! i)) \<in> set (map (\<lambda>row. sum_list (map (\<lambda>e. \<bar>dval e\<bar>) row)) m)"
      using mi by simp
  qed
  then show "sum_list (map (\<lambda>e. \<bar>dval e\<bar>) (m ! i)) \<le> abs_total m" .
  have "\<bar>dval (m ! i ! j)\<bar> \<le> sum_list (map (\<lambda>e. \<bar>dval e\<bar>) (m ! i))"
    by (rule member_le_sum_list_real) (use mij in auto)
  then show "\<bar>dval (m ! i ! j)\<bar> \<le> abs_total m" using rows by simp
qed

lemma row_sum_exact:
  assumes sq: "\<forall>row\<in>set m. length row = length m" and iw: "integer_weights m"
    and i: "i < length m"
  shows "row_sum m i = Fin (\<Sum>j<length m. dval (m ! i ! j))"
    and "(\<Sum>j<length m. dval (m ! i ! j)) \<in> \<int>"
    and "\<bar>\<Sum>j<length m. dval (m ! i ! j)\<bar> \<le> abs_total m"
proof -
  let ?n = "length m"
  let ?es = "map (\<lambda>j. m ! i ! j) [0..<?n]"
  have T: "abs_total m < 2 ^ 51" using iw by (simp add: integer_weights_def)
  have ints: "\<forall>e\<in>set ?es. is_int_dbl e" using integer_entry(1)[OF sq iw i] by auto
  have "m ! i \<in> set m" using i by simp
  then have len: "length (m ! i) = ?n" using sq by blast
  have "sum_list (map (\<lambda>e. \<bar>dval e\<bar>) ?es) = sum_list (map (\<lambda>e. \<bar>dval e\<bar>) (m ! i))"
    using row_as_map[OF len, of "\<lambda>e. \<bar>dval e\<bar>"] by (simp add: comp_def)
  also have "\<dots> \<le> abs_total m" by (rule integer_entry(3)[OF sq iw i i])
  finally have ab: "sum_list (map (\<lambda>e. \<bar>dval e\<bar>) ?es) \<le> abs_total m" .
  have "abs_total m < 2 ^ 53" using T by (rule less_trans) simp
  then have bound: "\<bar>0::real\<bar> + sum_list (map (\<lambda>e. \<bar>dval e\<bar>) ?es) < 2 ^ 53" using ab by simp
  have s: "sum_list (map dval ?es) = (\<Sum>j<?n. dval (m ! i ! j))"
    using sum_list_upt_conv[of "\<lambda>j. dval (m ! i ! j)" ?n] by (simp add: comp_def)
  from foldl_dadd_int[OF ints _ bound]
  have r: "foldl dadd (Fin 0) ?es = Fin (sum_list (map dval ?es))"
    and z: "sum_list (map dval ?es) \<in> \<int>" by simp_all
  show "row_sum m i = Fin (\<Sum>j<?n. dval (m ! i ! j))" unfolding row_sum_def r s ..
  show "(\<Sum>j<?n. dval (m ! i ! j)) \<in> \<int>" using z unfolding s .
  have "\<bar>sum_list (map dval ?es)\<bar> \<le> sum_list (map (\<lambda>e. \<bar>dval e\<bar>) ?es)"
    using sum_list_abs[of "map dval ?es"] by (simp add: comp_def)
  then show "\<bar>\<Sum>j<?n. dval (m ! i ! j)\<bar> \<le> abs_total m" using ab unfolding s by simp
qed

lemma col_sum_exact:
  assumes sq: "\<forall>row\<in>set m. length row = length m" and iw: "integer_weights m"
    and j: "j < length m"
  shows "col_sum m j = Fin (\<Sum>i<length m. dval (m ! i ! j))"
    and "(\<Sum>i<length m. dval (m ! i ! j)) \<in> \<int>"
    and "\<bar>\<Sum>i<length m. dval (m ! i ! j)\<bar> \<le> abs_total m"
proof -
  let ?n = "length m"
  let ?es = "map (\<lambda>i. m ! i ! j) [0..<?n]"
  have T: "abs_total m < 2 ^ 51" using iw by (simp add: integer_weights_def)
  have ints: "\<forall>e\<in>set ?es. is_int_dbl e" using integer_entry(1)[OF sq iw _ j] by auto
  have "sum_list (map (\<lambda>e. \<bar>dval e\<bar>) ?es) = sum_list (map (\<lambda>i. \<bar>dval (m ! i ! j)\<bar>) [0..<?n])"
    by (simp add: comp_def)
  also have "\<dots> \<le> sum_list (map (\<lambda>i. sum_list (map (\<lambda>e. \<bar>dval e\<bar>) (m ! i))) [0..<?n])"
  proof (rule sum_list_mono)
    fix i assume "i \<in> set [0..<?n]"
    then have i: "i < ?n" by simp
    then have "m ! i \<in> set m" by simp
    then have "length (m ! i) = ?n" using sq by blast
    then have "m ! i ! j \<in> set (m ! i)" using j by simp
    then show "\<bar>dval (m ! i ! j)\<bar> \<le> sum_list (map (\<lambda>e. \<bar>dval e\<bar>) (m ! i))"
      by (intro member_le_sum_list_real) auto
  qed
  also have "\<dots> = abs_total m"
    unfolding abs_total_def using row_as_map[of m ?n "\<lambda>row. sum_list (map (\<lambda>e. \<bar>dval e\<bar>) row)"]
    by simp
  finally have ab: "sum_list (map (\<lambda>e. \<bar>dval e\<bar>) ?es) \<le> abs_total m" .
  have "abs_total m < 2 ^ 53" using T by (rule less_trans) simp
  then have bound: "\<bar>0::real\<bar> + sum_list (map (\<lambda>e. \<bar>dval e\<bar>) ?es) < 2 ^ 53" using ab by simp
  have s: "sum_list (map dval ?es) = (\<Sum>i<?n. dval (m ! i ! j))"
    using sum_list_upt_conv[of "\<lambda>i. dval (m ! i ! j)" ?n] by (simp add: comp_def)
  from foldl_dadd_int[OF ints _ bound]
  have r: "foldl dadd (Fin 0) ?es = Fin (sum_list (map dval ?es))"
    and z: "sum_list (map dval ?es) \<in> \<int>" by simp_all
  show "col_sum m j = Fin (\<Sum>i<?n. dval (m ! i ! j))" unfolding col_sum_def r s ..
  show "(\<Sum>i<?n. dval (m ! i ! j)) \<in> \<int>" using z unfolding s .
  have "\<bar>sum_list (map dval ?es)\<bar> \<le> sum_list (map (\<lambda>e. \<bar>dval e\<bar>) ?es)"
    using sum_list_abs[of "map dval ?es"] by (simp add: comp_def)
  then show "\<bar>\<Sum>i<?n. dval (m ! i ! j)\<bar> \<le> abs_total m" using ab unfolding s by simp
qed

lemma is_int_dbl_Fin: "is_int_dbl d \<Longrightarrow> d = Fin (dval d) \<and> dval d \<in> \<int>"
  by (cases d) simp_all

lemma hermitian_cell_exact:
  assumes sq: "\<forall>row\<in>set m. length row = length m" and iw: "integer_weights m"
    and run: "adjacent_matrix_to_hermitian m A0 b0 = (ret, A, b)"
    and i: "i < length m" and j: "j < length m"
  shows "A ! (i * length m + j) =
           (Fin ((if i = j then (\<Sum>k<length m. dval (m ! i ! k)) + (\<Sum>k<length m. dval (m ! k ! i))
                  else 0)
                 - (dval (m ! i ! j) + dval (m ! j ! i))), Fin 0)"
proof -
  let ?n = "length m"
  let ?rs = "\<Sum>k<?n. dval (m ! i ! k)" and ?cs = "\<Sum>k<?n. dval (m ! k ! i)"
  let ?x = "dval (m ! i ! j)" and ?y = "dval (m ! j ! i)"
  have "abs_total m < 2 ^ 51" using iw by (simp add: integer_weights_def)
  then have T: "4 * abs_total m < 2 ^ 53" by simp
  have x: "m ! i ! j = Fin ?x" "?x \<in> \<int>" and y: "m ! j ! i = Fin ?y" "?y \<in> \<int>"
    using is_int_dbl_Fin[OF integer_entry(1)[OF sq iw i j]]
          is_int_dbl_Fin[OF integer_entry(1)[OF sq iw j i]] by simp_all
  have bx: "\<bar>?x\<bar> \<le> abs_total m" and bz: "\<bar>?y\<bar> \<le> abs_total m"
    using integer_entry(2)[OF sq iw i j] integer_entry(2)[OF sq iw j i] by simp_all
  have xy: "dadd (m ! i ! j) (m ! j ! i) = Fin (?x + ?y)"
  proof -
    have "\<bar>?x + ?y\<bar> < 2 ^ 53" using bx bz T by linarith
    then have "dadd (Fin ?x) (Fin ?y) = Fin (?x + ?y)" using x(2) y(2) by (intro dadd_int)
    then show ?thesis using x(1) y(1) by simp
  qed
  have xyi: "?x + ?y \<in> \<int>" using x(2) y(2) by simp
  note cell = hermitian_cell[OF run i j]
  show ?thesis
  proof (cases "i = j")
    case True
    have rs: "row_sum m i = Fin ?rs" "?rs \<in> \<int>" "\<bar>?rs\<bar> \<le> abs_total m"
      using row_sum_exact[OF sq iw i] by simp_all
    have cs: "col_sum m i = Fin ?cs" "?cs \<in> \<int>" "\<bar>?cs\<bar> \<le> abs_total m"
      using col_sum_exact[OF sq iw i] by simp_all
    have "\<bar>?rs + ?cs\<bar> < 2 ^ 53" using rs(3) cs(3) T by linarith
    then have d: "dadd (row_sum m i) (col_sum m i) = Fin (?rs + ?cs)"
      unfolding rs(1) cs(1) using rs(2) cs(2) by (intro dadd_int)
    have "\<bar>(?rs + ?cs) - (?x + ?y)\<bar> < 2 ^ 53" using rs(3) cs(3) bx bz T by linarith
    then have "dsub (Fin (?rs + ?cs)) (Fin (?x + ?y)) = Fin ((?rs + ?cs) - (?x + ?y))"
      using rs(2) cs(2) xyi by (intro dsub_int) simp_all
    then show ?thesis using True cell d xy by (simp add: csub_real_def)
  next
    case False
    have "\<bar>0 - (?x + ?y)\<bar> < 2 ^ 53" using bx bz T by linarith
    then have "dsub (Fin 0) (Fin (?x + ?y)) = Fin (0 - (?x + ?y))"
      using xyi by (intro dsub_int) simp_all
    then show ?thesis using False cell xy by (simp add: csub_real_def)
  qed
qed

lemma hermitian_b_exact:
  assumes sq: "\<forall>row\<in>set m. length row = length m" and iw: "integer_weights m"
    and i: "i < length m"
  shows "dsub (row_sum m i) (col_sum m i)
         = Fin ((\<Sum>k<length m. dval (m ! i ! k)) - (\<Sum>k<length m. dval (m ! k ! i)))"
proof -
  let ?n = "length m"
  let ?rs = "\<Sum>k<?n. dval (m ! i ! k)" and ?cs = "\<Sum>k<?n. dval (m ! k ! i)"
  have "abs_total m < 2 ^ 51" using iw by (simp add: integer_weights_def)
  then have T: "4 * abs_total m < 2 ^ 53" by simp
  have rs: "row_sum m i = Fin ?rs" "?rs \<in> \<int>" "\<bar>?rs\<bar> \<le> abs_total m"
    using row_sum_exact[OF sq iw i] by simp_all
  have cs: "col_sum m i = Fin ?cs" "?cs \<in> \<int>" "\<bar>?cs\<bar> \<le> abs_total m"
    using col_sum_exact[OF sq iw i] by simp_all
  have "\<bar>?rs - ?cs\<bar> < 2 ^ 53" using rs(3) cs(3) T by linarith
  then show ?thesis unfolding rs(1) cs(1) using rs(2) cs(2) by (intro dsub_int)
qed

text \<open>
  Claim C10 (as amended). For a square \<open>n \<times> n\<close> input, \<open>adjacent_matrix_to_hermitian\<close>
  returns 0 and an \<open>A\<close> of \<open>n * n\<close> entries with zero imaginary parts such that, in double
  arithmetic: \<open>A[i*n+j]\<close> and \<open>A[j*n+i]\<close> are the same value; the diagonal entry \<open>i\<close> is the
  sum of row \<open>i\<close> plus the sum of column \<open>i\<close>, minus \<open>m[i][i] + m[i][i]\<close>; the off-diagonal
  entry \<open>(i, j)\<close> is zero minus \<open>m[i][j] + m[j][i]\<close>; and the returned \<open>b\<close> is the caller's
  \<open>b\<close> followed by exactly the \<open>n\<close> values row sum minus column sum; every sum and
  difference is rounded. When all entries are integers whose absolute values add up to
  less than \<open>2 ^ 51\<close>, nothing is rounded: the entries are exactly the row sum plus the
  column sum minus twice the diagonal entry and \<open>- (m[i][j] + m[j][i])\<close>, every row of
  \<open>A\<close> sums to zero, and \<open>b\<close> holds the exact differences.
\<close>

theorem hermitian_double_arithmetic:
  assumes square: "\<forall>row \<in> set adjacent_mat. length row = length adjacent_mat"
    and run: "adjacent_matrix_to_hermitian adjacent_mat A0 b0 = (ret, A, b)"
  shows "ret = 0 \<and> length A = length adjacent_mat * length adjacent_mat \<and>
    (\<forall>i<length adjacent_mat. \<forall>j<length adjacent_mat.
        A ! (i * length adjacent_mat + j) = A ! (j * length adjacent_mat + i)) \<and>
    (\<forall>i<length adjacent_mat.
        A ! (i * length adjacent_mat + i) =
          (dsub (dadd (row_sum adjacent_mat i) (col_sum adjacent_mat i))
                (dadd (adjacent_mat ! i ! i) (adjacent_mat ! i ! i)), Fin 0)) \<and>
    (\<forall>i<length adjacent_mat. \<forall>j<length adjacent_mat. i \<noteq> j \<longrightarrow>
        A ! (i * length adjacent_mat + j) =
          (dsub (Fin 0) (dadd (adjacent_mat ! i ! j) (adjacent_mat ! j ! i)), Fin 0)) \<and>
    b = b0 @ map (\<lambda>i. dsub (row_sum adjacent_mat i) (col_sum adjacent_mat i))
                 [0..<length adjacent_mat] \<and>
    (integer_weights adjacent_mat \<longrightarrow>
       (\<forall>i<length adjacent_mat. \<forall>j<length adjacent_mat.
          A ! (i * length adjacent_mat + j) =
            (Fin ((if i = j then (\<Sum>k<length adjacent_mat. dval (adjacent_mat ! i ! k))
                               + (\<Sum>k<length adjacent_mat. dval (adjacent_mat ! k ! i))
                   else 0)
                  - (dval (adjacent_mat ! i ! j) + dval (adjacent_mat ! j ! i))), Fin 0)) \<and>
       (\<forall>i<length adjacent_mat.
          (\<Sum>j<length adjacent_mat. dval (fst (A ! (i * length adjacent_mat + j)))) = 0) \<and>
       b = b0 @ map (\<lambda>i. Fin ((\<Sum>k<length adjacent_mat. dval (adjacent_mat ! i ! k))
                              - (\<Sum>k<length adjacent_mat. dval (adjacent_mat ! k ! i))))
                    [0..<length adjacent_mat])"
proof -
  let ?n = "length adjacent_mat"
  let ?m = "adjacent_mat"
  note cell = hermitian_cell[OF run]
  have r: "ret = 0" and lenA: "length A = ?n * ?n"
    and bb: "b = b0 @ map (\<lambda>i. dsub (row_sum ?m i) (col_sum ?m i)) [0..<?n]"
    using run unfolding hermitian_entries by auto
  have sym: "\<forall>i<?n. \<forall>j<?n. A ! (i * ?n + j) = A ! (j * ?n + i)"
  proof (intro allI impI)
    fix i j assume i: "i < ?n" and j: "j < ?n"
    have c: "dadd (?m ! i ! j) (?m ! j ! i) = dadd (?m ! j ! i) (?m ! i ! j)"
      by (rule dadd_commute)
    show "A ! (i * ?n + j) = A ! (j * ?n + i)"
      unfolding cell[OF i j] cell[OF j i] c by (cases "i = j") simp_all
  qed
  have diag: "\<forall>i<?n. A ! (i * ?n + i) =
          (dsub (dadd (row_sum ?m i) (col_sum ?m i)) (dadd (?m ! i ! i) (?m ! i ! i)), Fin 0)"
    by (simp add: cell csub_real_def)
  have off: "\<forall>i<?n. \<forall>j<?n. i \<noteq> j \<longrightarrow>
        A ! (i * ?n + j) = (dsub (Fin 0) (dadd (?m ! i ! j) (?m ! j ! i)), Fin 0)"
    by (simp add: cell csub_real_def)
  have exact: "integer_weights ?m \<longrightarrow>
       (\<forall>i<?n. \<forall>j<?n.
          A ! (i * ?n + j) =
            (Fin ((if i = j then (\<Sum>k<?n. dval (?m ! i ! k)) + (\<Sum>k<?n. dval (?m ! k ! i)) else 0)
                  - (dval (?m ! i ! j) + dval (?m ! j ! i))), Fin 0)) \<and>
       (\<forall>i<?n. (\<Sum>j<?n. dval (fst (A ! (i * ?n + j)))) = 0) \<and>
       b = b0 @ map (\<lambda>i. Fin ((\<Sum>k<?n. dval (?m ! i ! k)) - (\<Sum>k<?n. dval (?m ! k ! i)))) [0..<?n]"
  proof
    assume iw: "integer_weights ?m"
    note ex = hermitian_cell_exact[OF square iw run]
    have e1: "\<forall>i<?n. \<forall>j<?n.
          A ! (i * ?n + j) =
            (Fin ((if i = j then (\<Sum>k<?n. dval (?m ! i ! k)) + (\<Sum>k<?n. dval (?m ! k ! i)) else 0)
                  - (dval (?m ! i ! j) + dval (?m ! j ! i))), Fin 0)"
      using ex by blast
    have e2: "\<forall>i<?n. (\<Sum>j<?n. dval (fst (A ! (i * ?n + j)))) = 0"
    proof (intro allI impI)
      fix i assume i: "i < ?n"
      let ?d = "(\<Sum>k<?n. dval (?m ! i ! k)) + (\<Sum>k<?n. dval (?m ! k ! i))"
      have "(\<Sum>j<?n. dval (fst (A ! (i * ?n + j))))
            = (\<Sum>j<?n. (if i = j then ?d else 0) - (dval (?m ! i ! j) + dval (?m ! j ! i)))"
        by (rule sum.cong[OF refl]) (simp add: ex[OF i])
      also have "\<dots> = (\<Sum>j<?n. if i = j then ?d else 0)
                       - (\<Sum>j<?n. dval (?m ! i ! j) + dval (?m ! j ! i))"
        by (rule sum_subtractf)
      also have "(\<Sum>j<?n. if i = j then ?d else 0) = ?d"
        using i by simp
      also have "(\<Sum>j<?n. dval (?m ! i ! j) + dval (?m ! j ! i)) = ?d"
        by (simp add: sum.distrib)
      finally show "(\<Sum>j<?n. dval (fst (A ! (i * ?n + j)))) = 0" by simp
    qed
    have "map (\<lambda>i. dsub (row_sum ?m i) (col_sum ?m i)) [0..<?n]
          = map (\<lambda>i. Fin ((\<Sum>k<?n. dval (?m ! i ! k)) - (\<Sum>k<?n. dval (?m ! k ! i)))) [0..<?n]"
      by (rule map_cong[OF refl]) (simp add: hermitian_b_exact[OF square iw])
    then have e3: "b = b0 @ map (\<lambda>i. Fin ((\<Sum>k<?n. dval (?m ! i ! k)) - (\<Sum>k<?n. dval (?m ! k ! i)))) [0..<?n]"
      using bb by simp
    show "(\<forall>i<?n. \<forall>j<?n.
          A ! (i * ?n + j) =
            (Fin ((if i = j then (\<Sum>k<?n. dval (?m ! i ! k)) + (\<Sum>k<?n. dval (?m ! k ! i)) else 0)
                  - (dval (?m ! i ! j) + dval (?m ! j ! i))), Fin 0)) \<and>
       (\<forall>i<?n. (\<Sum>j<?n. dval (fst (A ! (i * ?n + j)))) = 0) \<and>
       b = b0 @ map (\<lambda>i. Fin ((\<Sum>k<?n. dval (?m ! i ! k)) - (\<Sum>k<?n. dval (?m ! k ! i)))) [0..<?n]"
      using e1 e2 e3 by (intro conjI)
  qed
  show ?thesis
    apply (intro conjI)
    apply (rule r)
    apply (rule lenA)
    apply (rule sym)
    apply (rule diag)
    apply (rule off)
    apply (rule bb)
    apply (rule exact)
    done
qed

text \<open>
  The theorem at a concrete \<open>2 \<times> 2\<close> input of integer weights with a non-zero diagonal.
\<close>

theorem hermitian_double_arithmetic_witness:
  "adjacent_matrix_to_hermitian [[Fin 1, Fin 2], [Fin 3, Fin 4]] [(NaN, PosInf)] [Fin 9]
     = (0, [(Fin 5, Fin 0), (Fin (- 5), Fin 0), (Fin (- 5), Fin 0), (Fin 5, Fin 0)],
        [Fin 9, Fin (- 1), Fin 1])
   \<and> integer_weights [[Fin 1, Fin 2], [Fin 3, Fin 4]]
   \<and> (\<Sum>j<2. dval (fst ([(Fin 5, Fin 0), (Fin (- 5), Fin 0), (Fin (- 5), Fin 0), (Fin 5, Fin 0)]
                          ! (1 * 2 + j)))) = 0"
proof -
  let ?m = "[[Fin 1, Fin 2], [Fin 3, Fin 4]]"
  let ?A = "[(Fin 5, Fin 0), (Fin (- 5), Fin 0), (Fin (- 5), Fin 0), (Fin 5, Fin 0)]"
  have sq: "\<forall>row \<in> set ?m. length row = length ?m" by simp
  have iw: "integer_weights ?m" by (simp add: integer_weights_def abs_total_def)
  have run: "adjacent_matrix_to_hermitian ?m [(NaN, PosInf)] [Fin 9] = (0, ?A, [Fin 9, Fin (- 1), Fin 1])"
    by (simp add: adjacent_matrix_to_hermitian_def degree_scan_def row_scan_def fill_b_def
        fill_diagonal_def subtract_edges_def subtract_row_def csub_real_def dsub_def
        round_dbl_0 round_dbl_1 round_dbl_neg_1 round_dbl_numeral round_dbl_neg_numeral)
  note facts = hermitian_double_arithmetic[OF sq run]
  have ex: "integer_weights ?m \<longrightarrow>
       (\<forall>i<length ?m. \<forall>j<length ?m.
          ?A ! (i * length ?m + j) =
            (Fin ((if i = j then (\<Sum>k<length ?m. dval (?m ! i ! k))
                               + (\<Sum>k<length ?m. dval (?m ! k ! i))
                   else 0)
                  - (dval (?m ! i ! j) + dval (?m ! j ! i))), Fin 0)) \<and>
       (\<forall>i<length ?m. (\<Sum>j<length ?m. dval (fst (?A ! (i * length ?m + j)))) = 0) \<and>
       [Fin 9, Fin (- 1), Fin 1] =
          [Fin 9] @ map (\<lambda>i. Fin ((\<Sum>k<length ?m. dval (?m ! i ! k))
                              - (\<Sum>k<length ?m. dval (?m ! k ! i))))
                    [0..<length ?m]"
    by (rule facts[THEN conjunct2, THEN conjunct2, THEN conjunct2, THEN conjunct2,
          THEN conjunct2, THEN conjunct2])
  have rows0: "\<forall>i<length ?m. (\<Sum>j<length ?m. dval (fst (?A ! (i * length ?m + j)))) = 0"
    by (rule ex[rule_format, OF iw, THEN conjunct2, THEN conjunct1])
  have one: "1 < length ?m" by simp
  have len: "length ?m = 2" by simp
  have "(\<Sum>j<2. dval (fst (?A ! (1 * 2 + j)))) = 0"
    using rows0[rule_format, OF one] unfolding len .
  with run iw show ?thesis by (intro conjI)
qed

text \<open>
  Rows do not sum to zero in general. With the weights \<open>10^16\<close> and 1 in row 0, the row
  sum \<open>10^16 + 1\<close> is rounded to \<open>10^16\<close>, so the diagonal entry is \<open>10^16\<close> while the
  off-diagonal entries are \<open>- 10^16\<close> and \<open>- 1\<close>: row 0 of \<open>A\<close> sums to \<open>- 1\<close>, as a real
  sum and as a double sum.
\<close>

theorem hermitian_row_sum_counterexample:
  "adjacent_matrix_to_hermitian
      [[Fin 0, Fin 10000000000000000, Fin 1], [Fin 0, Fin 0, Fin 0], [Fin 0, Fin 0, Fin 0]] [] []
    = (0,
       [(Fin 10000000000000000, Fin 0), (Fin (- 10000000000000000), Fin 0), (Fin (- 1), Fin 0),
        (Fin (- 10000000000000000), Fin 0), (Fin 10000000000000000, Fin 0), (Fin 0, Fin 0),
        (Fin (- 1), Fin 0), (Fin 0, Fin 0), (Fin 1, Fin 0)],
       [Fin 10000000000000000, Fin (- 10000000000000000), Fin (- 1)])
   \<and> dval (Fin 10000000000000000) + dval (Fin (- 10000000000000000)) + dval (Fin (- 1)) \<noteq> 0
   \<and> dadd (dadd (dadd (Fin 0) (Fin 10000000000000000)) (Fin (- 10000000000000000))) (Fin (- 1))
       \<noteq> Fin 0"
proof -
  have run: "adjacent_matrix_to_hermitian
      [[Fin 0, Fin 10000000000000000, Fin 1], [Fin 0, Fin 0, Fin 0], [Fin 0, Fin 0, Fin 0]] [] []
    = (0,
       [(Fin 10000000000000000, Fin 0), (Fin (- 10000000000000000), Fin 0), (Fin (- 1), Fin 0),
        (Fin (- 10000000000000000), Fin 0), (Fin 10000000000000000, Fin 0), (Fin 0, Fin 0),
        (Fin (- 1), Fin 0), (Fin 0, Fin 0), (Fin 1, Fin 0)],
       [Fin 10000000000000000, Fin (- 10000000000000000), Fin (- 1)])"
    by (simp add: adjacent_matrix_to_hermitian_def degree_scan_def row_scan_def fill_b_def
        fill_diagonal_def subtract_edges_def subtract_row_def csub_real_def dsub_def
        round_dbl_0 round_dbl_1 round_dbl_neg_1 round_dbl_1e16 round_dbl_neg_1e16
        round_dbl_1e16_plus_1)
  have s1: "dval (Fin 10000000000000000) + dval (Fin (- 10000000000000000)) + dval (Fin (- 1)) \<noteq> 0"
    by simp
  have s2: "dadd (dadd (dadd (Fin 0) (Fin 10000000000000000)) (Fin (- 10000000000000000))) (Fin (- 1))
       \<noteq> Fin 0"
    by (simp add: round_dbl_0 round_dbl_neg_1 round_dbl_1e16)
  from run s1 s2 show ?thesis by (intro conjI)
qed

subsection \<open>The partition registry\<close>

lemma kron_length: "length (kron a b) = length a * length b"
  by (induction b) (simp_all add: kron_def)

lemma kron_nth:
  "i0 < length a \<Longrightarrow> i1 < length b \<Longrightarrow> kron a b ! (i0 + length a * i1) = a ! i0 * b ! i1"
proof (induction b arbitrary: i1)
  case Nil
  then show ?case by simp
next
  case (Cons y ys)
  have unf: "kron a (y # ys) = map (\<lambda>x. x * y) a @ kron a ys"
    by (simp add: kron_def)
  show ?case
  proof (cases i1)
    case 0
    then show ?thesis using Cons.prems unf by (simp add: nth_append)
  next
    case (Suc k)
    then have k: "k < length ys" using Cons.prems by simp
    have "i0 + length a * i1 = length a + (i0 + length a * k)" using Suc by simp
    then have "kron a (y # ys) ! (i0 + length a * i1) = kron a ys ! (i0 + length a * k)"
      unfolding unf by (simp add: nth_append)
    then show ?thesis using Cons.IH[OF Cons.prems(1) k] Suc by simp
  qed
qed


lemma wf_registry_iff:
  "wf_registry reg \<longleftrightarrow>
     distinct reg \<and> (\<forall>g\<in>set reg. store_ok g \<and> distinct (qVec g)) \<and>
     (\<forall>g\<in>set reg. \<forall>h\<in>set reg. g \<noteq> h \<longrightarrow> set (qVec g) \<inter> set (qVec h) = {})"
  (is "?L \<longleftrightarrow> ?R")
proof
  assume L: ?L
  then have dc: "distinct (concat (map qVec reg))"
    and ok: "\<forall>g\<in>set reg. store_ok g"
    by (simp_all add: wf_registry_def list_all_iff store_ok_def)
  have "\<And>g. g \<in> set reg \<Longrightarrow> qVec g \<noteq> []"
    using ok by (simp add: store_ok_def)
  then have "[] \<notin> set (map qVec reg)" by (metis (no_types) imageE list.set_map)
  then have ne: "removeAll [] (map qVec reg) = map qVec reg"
    by (rule removeAll_id)
  from dc have dm: "distinct (map qVec reg)"
    and de: "\<forall>ys\<in>set (map qVec reg). distinct ys"
    and dj: "\<forall>ys zs. ys \<in> set (map qVec reg) \<and> zs \<in> set (map qVec reg) \<and> ys \<noteq> zs \<longrightarrow> set ys \<inter> set zs = {}"
    unfolding distinct_concat_iff ne by blast+
  from dm have d: "distinct reg" and inj: "inj_on qVec (set reg)"
    by (simp_all add: distinct_map)
  have pd: "\<forall>g\<in>set reg. \<forall>h\<in>set reg. g \<noteq> h \<longrightarrow> set (qVec g) \<inter> set (qVec h) = {}"
  proof (intro ballI impI)
    fix g h assume g: "g \<in> set reg" and h: "h \<in> set reg" and "g \<noteq> h"
    then have "qVec g \<noteq> qVec h" using inj by (auto dest: inj_onD)
    then show "set (qVec g) \<inter> set (qVec h) = {}" using dj g h by auto
  qed
  show ?R using d ok de pd by auto
next
  assume R: ?R
  then have d: "distinct reg" and ok: "\<forall>g\<in>set reg. store_ok g"
    and de: "\<forall>g\<in>set reg. distinct (qVec g)"
    and pd: "\<forall>g\<in>set reg. \<forall>h\<in>set reg. g \<noteq> h \<longrightarrow> set (qVec g) \<inter> set (qVec h) = {}"
    by blast+
  have "\<And>g. g \<in> set reg \<Longrightarrow> qVec g \<noteq> []"
    using ok by (simp add: store_ok_def)
  then have "[] \<notin> set (map qVec reg)" by (metis (no_types) imageE list.set_map)
  then have ne: "removeAll [] (map qVec reg) = map qVec reg"
    by (rule removeAll_id)
  have inj: "inj_on qVec (set reg)"
  proof (rule inj_onI)
    fix g h assume g: "g \<in> set reg" and h: "h \<in> set reg" and e: "qVec g = qVec h"
    show "g = h"
    proof (rule ccontr)
      assume "g \<noteq> h"
      then have "set (qVec g) \<inter> set (qVec h) = {}" using pd g h by blast
      then have "qVec g = []" using e by simp
      then show False using ok g by (simp add: store_ok_def)
    qed
  qed
  have dm: "distinct (map qVec reg)" using d inj by (simp add: distinct_map)
  have dj: "\<forall>ys zs. ys \<in> set (map qVec reg) \<and> zs \<in> set (map qVec reg) \<and> ys \<noteq> zs
              \<longrightarrow> set ys \<inter> set zs = {}"
  proof (intro allI impI)
    fix ys zs
    assume a: "ys \<in> set (map qVec reg) \<and> zs \<in> set (map qVec reg) \<and> ys \<noteq> zs"
    then obtain g h where g: "g \<in> set reg" "ys = qVec g" and h: "h \<in> set reg" "zs = qVec h"
      by auto
    then have "g \<noteq> h" using a by auto
    then show "set ys \<inter> set zs = {}" using pd g h by blast
  qed
  have de': "\<forall>ys. ys \<in> set (map qVec reg) \<longrightarrow> distinct ys" using de by auto
  have "distinct (concat (map qVec reg))"
    unfolding distinct_concat_iff ne using dm de' dj by blast
  then show ?L using ok by (simp add: wf_registry_def list_all_iff store_ok_def)
qed

lemma findgroup_SomeD:
  "findgroup reg q = Some g \<Longrightarrow> g \<in> set reg \<and> q \<in> set (qVec g)"
  unfolding findgroup_def by (auto simp: find_Some_iff)

lemma findgroup_None_iff: "findgroup reg q = None \<longleftrightarrow> q \<notin> allocated reg"
  unfolding findgroup_def allocated_def by (auto simp: find_None_iff)

lemma findgroup_unique:
  assumes wf: "wf_registry reg" and g: "g \<in> set reg" and q: "q \<in> set (qVec g)"
  shows "findgroup reg q = Some g"
proof -
  have "q \<in> allocated reg" using g q by (auto simp: allocated_def)
  then obtain h where h: "findgroup reg q = Some h"
    using findgroup_None_iff[of reg q] by (cases "findgroup reg q") auto
  then have hh: "h \<in> set reg" "q \<in> set (qVec h)" using findgroup_SomeD by blast+
  have "h = g"
  proof (rule ccontr)
    assume "h \<noteq> g"
    then have "set (qVec h) \<inter> set (qVec g) = {}"
      using wf hh(1) g unfolding wf_registry_iff by blast
    then show False using q hh(2) by auto
  qed
  then show ?thesis using h by simp
qed

lemma TensorProduct_qVec [simp]: "qVec (TensorProduct g0 g1) = qVec g0 @ qVec g1"
  by (simp add: TensorProduct_def)

lemma TensorProduct_qstate [simp]: "qstate (TensorProduct g0 g1) = kron (qstate g0) (qstate g1)"
  by (simp add: TensorProduct_def)

lemma TensorProduct_ok:
  "store_ok g0 \<Longrightarrow> store_ok g1 \<Longrightarrow> store_ok (TensorProduct g0 g1)"
  by (simp add: store_ok_def kron_length power_add)

lemma TensorProduct_fresh:
  assumes wf: "wf_registry reg" and g0: "g0 \<in> set reg" and g1: "g1 \<in> set reg" and ne: "g0 \<noteq> g1"
  shows "TensorProduct g0 g1 \<notin> set reg"
proof
  let ?T = "TensorProduct g0 g1"
  assume T: "?T \<in> set reg"
  have ok: "store_ok g0" "store_ok g1" using wf g0 g1 unfolding wf_registry_iff by blast+
  then obtain a where a: "a \<in> set (qVec g0)" by (cases "qVec g0") (auto simp: store_ok_def)
  from ok obtain b where b: "b \<in> set (qVec g1)" by (cases "qVec g1") (auto simp: store_ok_def)
  have "findgroup reg a = Some ?T" by (rule findgroup_unique[OF wf T]) (simp add: a)
  moreover have "findgroup reg a = Some g0" by (rule findgroup_unique[OF wf g0 a])
  ultimately have e0: "?T = g0" by simp
  have "findgroup reg b = Some ?T" by (rule findgroup_unique[OF wf T]) (simp add: b)
  moreover have "findgroup reg b = Some g1" by (rule findgroup_unique[OF wf g1 b])
  ultimately have "?T = g1" by simp
  with e0 ne show False by simp
qed


lemma allocated_set: "allocated reg = (\<Union>g\<in>set reg. set (qVec g))"
  by (simp add: allocated_def)

lemma merge_pair_same:
  "findgroup reg q0 = Some G \<Longrightarrow> findgroup reg q = Some G \<Longrightarrow> merge_pair reg q0 q = reg"
  by (simp add: merge_pair_def)

lemma merge_pair_set:
  assumes wf: "wf_registry reg" and G: "findgroup reg q0 = Some G"
    and g1: "findgroup reg q = Some g1" and ne: "G \<noteq> g1"
  shows "set (merge_pair reg q0 q) = (set reg - {G, g1}) \<union> {TensorProduct G g1}"
proof -
  have Gin: "G \<in> set reg" using findgroup_SomeD[OF G] by simp
  have "merge_pair reg q0 q
        = map (\<lambda>g. if g = G then TensorProduct G g1 else g) (filter (\<lambda>g. g \<noteq> g1) reg)"
    using G g1 ne by (simp add: merge_pair_def)
  then have "set (merge_pair reg q0 q)
        = (\<lambda>g. if g = G then TensorProduct G g1 else g) ` (set reg - {g1})"
    by auto
  also have "\<dots> = (set reg - {G, g1}) \<union> {TensorProduct G g1}"
    using Gin ne by auto
  finally show ?thesis .
qed

lemma merge_pair_wf:
  assumes wf: "wf_registry reg" and G: "findgroup reg q0 = Some G"
    and g1: "findgroup reg q = Some g1" and ne: "G \<noteq> g1"
  shows "wf_registry (merge_pair reg q0 q)"
proof -
  let ?T = "TensorProduct G g1"
  let ?f = "\<lambda>g. if g = G then ?T else g"
  let ?r = "filter (\<lambda>g. g \<noteq> g1) reg"
  have Gin: "G \<in> set reg" and g1in: "g1 \<in> set reg"
    using findgroup_SomeD[OF G] findgroup_SomeD[OF g1] by simp_all
  have d: "distinct reg"
    and ok: "\<And>g. g \<in> set reg \<Longrightarrow> store_ok g \<and> distinct (qVec g)"
    and pd: "\<And>g h. g \<in> set reg \<Longrightarrow> h \<in> set reg \<Longrightarrow> g \<noteq> h \<Longrightarrow> set (qVec g) \<inter> set (qVec h) = {}"
    using wf unfolding wf_registry_iff by blast+
  have fresh: "?T \<notin> set reg" by (rule TensorProduct_fresh[OF wf Gin g1in ne])
  have eq: "merge_pair reg q0 q = map ?f ?r"
    using G g1 ne by (simp add: merge_pair_def)
  have st: "set (merge_pair reg q0 q) = (set reg - {G, g1}) \<union> {?T}"
    by (rule merge_pair_set[OF wf G g1 ne])
  have inj: "inj_on ?f (set ?r)"
  proof (rule inj_onI)
    fix x y assume x: "x \<in> set ?r" and y: "y \<in> set ?r" and e: "?f x = ?f y"
    have xr: "x \<in> set reg" and yr: "y \<in> set reg" using x y by simp_all
    show "x = y"
    proof (cases "x = G")
      case True
      show ?thesis
      proof (cases "y = G")
        case True
        with \<open>x = G\<close> show ?thesis by simp
      next
        case False
        then have "?T = y" using e True by simp
        then show ?thesis using fresh yr by simp
      qed
    next
      case False
      show ?thesis
      proof (cases "y = G")
        case True
        then have "x = ?T" using e False by simp
        then show ?thesis using fresh xr by simp
      next
        case False
        with \<open>x \<noteq> G\<close> e show ?thesis by simp
      qed
    qed
  qed
  have d': "distinct (merge_pair reg q0 q)"
    unfolding eq using d inj by (simp add: distinct_map)
  have Tok: "store_ok ?T \<and> distinct (qVec ?T)"
    using ok[OF Gin] ok[OF g1in] pd[OF Gin g1in ne] by (simp add: TensorProduct_ok)
  have ok': "\<forall>g\<in>set (merge_pair reg q0 q). store_ok g \<and> distinct (qVec g)"
    unfolding st using Tok ok by blast
  have pd': "\<forall>g\<in>set (merge_pair reg q0 q). \<forall>h\<in>set (merge_pair reg q0 q).
               g \<noteq> h \<longrightarrow> set (qVec g) \<inter> set (qVec h) = {}"
  proof (intro ballI impI)
    fix g h assume g: "g \<in> set (merge_pair reg q0 q)" and h: "h \<in> set (merge_pair reg q0 q)"
      and gh: "g \<noteq> h"
    have old: "\<And>x. x \<in> set reg - {G, g1} \<Longrightarrow> set (qVec ?T) \<inter> set (qVec x) = {}"
    proof -
      fix x assume x: "x \<in> set reg - {G, g1}"
      then have "set (qVec G) \<inter> set (qVec x) = {}" "set (qVec g1) \<inter> set (qVec x) = {}"
        using pd[OF Gin, of x] pd[OF g1in, of x] by auto
      then show "set (qVec ?T) \<inter> set (qVec x) = {}" by auto
    qed
    consider "g = ?T" "h \<in> set reg - {G, g1}" | "h = ?T" "g \<in> set reg - {G, g1}"
      | "g \<in> set reg - {G, g1}" "h \<in> set reg - {G, g1}"
    proof -
      assume c1: "g = ?T \<Longrightarrow> h \<in> set reg - {G, g1} \<Longrightarrow> thesis"
        and c2: "h = ?T \<Longrightarrow> g \<in> set reg - {G, g1} \<Longrightarrow> thesis"
        and c3: "g \<in> set reg - {G, g1} \<Longrightarrow> h \<in> set reg - {G, g1} \<Longrightarrow> thesis"
      have g': "g = ?T \<or> g \<in> set reg - {G, g1}" using g unfolding st by auto
      have h': "h = ?T \<or> h \<in> set reg - {G, g1}" using h unfolding st by auto
      show thesis
      proof (cases "g = ?T")
        case True
        then have "h \<in> set reg - {G, g1}" using h' gh by auto
        with True show thesis by (rule c1)
      next
        case False
        then have gm: "g \<in> set reg - {G, g1}" using g' by simp
        show thesis
        proof (cases "h = ?T")
          case True
          then show thesis using gm by (rule c2)
        next
          case False
          then have "h \<in> set reg - {G, g1}" using h' by simp
          with gm show thesis by (rule c3)
        qed
      qed
    qed
    then show "set (qVec g) \<inter> set (qVec h) = {}"
    proof cases
      case 1
      then show ?thesis using old by simp
    next
      case 2
      then show ?thesis using old[of g] by (simp add: Int_commute)
    next
      case 3
      then show ?thesis using pd[of g h] gh by simp
    qed
  qed
  show ?thesis unfolding wf_registry_iff using d' ok' pd' by blast
qed

lemma merge_pair_allocated:
  assumes wf: "wf_registry reg" and G: "findgroup reg q0 = Some G"
    and g1: "findgroup reg q = Some g1" and ne: "G \<noteq> g1"
  shows "allocated (merge_pair reg q0 q) = allocated reg"
proof -
  have Gin: "G \<in> set reg" and g1in: "g1 \<in> set reg"
    using findgroup_SomeD[OF G] findgroup_SomeD[OF g1] by simp_all
  have "allocated (merge_pair reg q0 q)
        = (\<Union>g\<in>set reg - {G, g1}. set (qVec g)) \<union> (set (qVec G) \<union> set (qVec g1))"
    unfolding allocated_set merge_pair_set[OF wf G g1 ne] by auto
  also have "\<dots> = allocated reg"
    unfolding allocated_set using Gin g1in by auto
  finally show ?thesis .
qed

lemma merge_pair_findgroup:
  assumes wf: "wf_registry reg" and G: "findgroup reg q0 = Some G"
    and g1: "findgroup reg q = Some g1" and ne: "G \<noteq> g1"
  shows "findgroup (merge_pair reg q0 q) q' =
           (if q' \<in> set (qVec G) \<union> set (qVec g1) then Some (TensorProduct G g1)
            else findgroup reg q')"
proof -
  let ?T = "TensorProduct G g1"
  let ?reg1 = "merge_pair reg q0 q"
  note wf1 = merge_pair_wf[OF wf G g1 ne]
  note st = merge_pair_set[OF wf G g1 ne]
  show ?thesis
  proof (cases "q' \<in> set (qVec G) \<union> set (qVec g1)")
    case True
    have "findgroup ?reg1 q' = Some ?T"
      by (rule findgroup_unique[OF wf1]) (use True st in auto)
    then show ?thesis using True by simp
  next
    case False
    show ?thesis
    proof (cases "findgroup reg q'")
      case None
      then have "q' \<notin> allocated ?reg1"
        unfolding merge_pair_allocated[OF wf G g1 ne] by (simp add: findgroup_None_iff)
      then have "findgroup ?reg1 q' = None" by (simp add: findgroup_None_iff)
      then show ?thesis using None False by simp
    next
      case (Some h)
      then have h: "h \<in> set reg" "q' \<in> set (qVec h)" using findgroup_SomeD by blast+
      then have "h \<noteq> G" "h \<noteq> g1" using False by auto
      then have "h \<in> set ?reg1" unfolding st using h(1) by simp
      then have "findgroup ?reg1 q' = Some h"
        by (rule findgroup_unique[OF wf1]) (rule h(2))
      then show ?thesis using Some False by simp
    qed
  qed
qed


lemma findgroup_allocated:
  "q \<in> allocated reg \<Longrightarrow> \<exists>g. findgroup reg q = Some g"
  using findgroup_None_iff[of reg q] by (cases "findgroup reg q") auto

lemma merge_all_same:
  "findgroup reg q0 = Some G \<Longrightarrow> \<forall>q\<in>set qs. findgroup reg q = Some G \<Longrightarrow>
   merge_all reg q0 qs = reg"
  by (induction qs) (simp_all add: merge_pair_same)

lemma foldl_TensorProduct_qVec:
  "qVec (foldl TensorProduct G hs) = qVec G @ concat (map qVec hs)"
  by (induction hs arbitrary: G) simp_all

lemma stores_in_order_transfer:
  assumes "\<forall>q\<in>set qs. (f q \<in> {G, g1} \<longrightarrow> f1 q = G1) \<and>
                        (f q \<notin> {G, g1} \<longrightarrow> f1 q = f q \<and> f q \<noteq> G1)"
    and "G1 \<in> set S1" and "G \<in> set S" and "g1 \<in> set S"
    and "set S1 - {G1} = set S - {G, g1}"
  shows "stores_in_order S1 (map f1 qs) = stores_in_order S (map f qs)"
  using assms
proof (induction qs arbitrary: S1 S)
  case Nil
  then show ?case by simp
next
  case (Cons q qs)
  have p: "\<forall>q\<in>set qs. (f q \<in> {G, g1} \<longrightarrow> f1 q = G1) \<and>
                        (f q \<notin> {G, g1} \<longrightarrow> f1 q = f q \<and> f q \<noteq> G1)"
    using Cons.prems(1) by simp
  have hd1: "f q \<in> {G, g1} \<Longrightarrow> f1 q = G1"
    and hd2: "f q \<notin> {G, g1} \<Longrightarrow> f1 q = f q \<and> f q \<noteq> G1"
    using Cons.prems(1) by auto
  note tail = Cons.IH[OF p]
  show ?case
  proof (cases "f q \<in> {G, g1}")
    case True
    then have "f1 q = G1" by (rule hd1)
    then have a: "f1 q \<in> set S1" using Cons.prems(2) by simp
    have b: "f q \<in> set S" using True Cons.prems(3,4) by auto
    show ?thesis using a b tail[OF Cons.prems(2,3,4,5)] by simp
  next
    case False
    then have e: "f1 q = f q" and n: "f q \<noteq> G1" using hd2 by simp_all
    have iff: "f q \<in> set S1 \<longleftrightarrow> f q \<in> set S"
      using False n Cons.prems(5) by blast
    show ?thesis
    proof (cases "f q \<in> set S")
      case True
      then show ?thesis using iff e tail[OF Cons.prems(2,3,4,5)] by simp
    next
      case nin: False
      have "set (f q # S1) - {G1} = insert (f q) (set S1 - {G1})" using n by auto
      also have "\<dots> = insert (f q) (set S - {G, g1})" using Cons.prems(5) by simp
      also have "\<dots> = set (f q # S) - {G, g1}" using False by auto
      finally have rel': "set (f q # S1) - {G1} = set (f q # S) - {G, g1}" .
      have m1: "G1 \<in> set (f q # S1)" using Cons.prems(2) by simp
      have m2: "G \<in> set (f q # S)" "g1 \<in> set (f q # S)" using Cons.prems(3,4) by simp_all
      have "stores_in_order (f q # S1) (map f1 qs) = stores_in_order (f q # S) (map f qs)"
        by (rule tail[OF m1 m2 rel'])
      then show ?thesis using nin iff e by simp
    qed
  qed
qed


lemma merge_all_spec:
  assumes "wf_registry reg" and "findgroup reg q0 = Some G" and "set qs \<subseteq> allocated reg"
  shows "wf_registry (merge_all reg q0 qs) \<and>
         set (merge_all reg q0 qs)
           = (set reg - ({G} \<union> set (stores_in_order [G] (map (\<lambda>q. the (findgroup reg q)) qs))))
             \<union> {foldl TensorProduct G (stores_in_order [G] (map (\<lambda>q. the (findgroup reg q)) qs))} \<and>
         (\<forall>q'. findgroup (merge_all reg q0 qs) q' =
            (if q' \<in> set (qVec G) \<union>
                     set (concat (map qVec (stores_in_order [G] (map (\<lambda>q. the (findgroup reg q)) qs))))
             then Some (foldl TensorProduct G (stores_in_order [G] (map (\<lambda>q. the (findgroup reg q)) qs)))
             else findgroup reg q'))"
  using assms
proof (induction qs arbitrary: reg G)
  case Nil
  have Gin: "G \<in> set reg" using findgroup_SomeD[OF Nil.prems(2)] by simp
  have fg: "\<And>q'. q' \<in> set (qVec G) \<Longrightarrow> findgroup reg q' = Some G"
    by (rule findgroup_unique[OF Nil.prems(1) Gin])
  show ?case using Nil.prems(1) Gin fg by auto
next
  case (Cons q qs)
  let ?f = "\<lambda>q. the (findgroup reg q)"
  note wf = Cons.prems(1) and G = Cons.prems(2)
  have Gin: "G \<in> set reg" and q0G: "q0 \<in> set (qVec G)" using findgroup_SomeD[OF G] by simp_all
  have qa: "q \<in> allocated reg" and qsa: "set qs \<subseteq> allocated reg" using Cons.prems(3) by simp_all
  obtain g1 where g1: "findgroup reg q = Some g1" using findgroup_allocated[OF qa] by blast
  show ?case
  proof (cases "g1 = G")
    case True
    have mp: "merge_pair reg q0 q = reg" using G g1 True by (simp add: merge_pair_same)
    have so: "stores_in_order [G] (map ?f (q # qs)) = stores_in_order [G] (map ?f qs)"
      using g1 True by simp
    show ?thesis
      unfolding so merge_all.simps mp by (rule Cons.IH[OF wf G qsa])
  next
    case False
    then have ne: "G \<noteq> g1" by simp
    let ?reg1 = "merge_pair reg q0 q"
    let ?G1 = "TensorProduct G g1"
    let ?f1 = "\<lambda>q. the (findgroup ?reg1 q)"
    let ?hs' = "stores_in_order [g1, G] (map ?f qs)"
    have g1in: "g1 \<in> set reg" using findgroup_SomeD[OF g1] by simp
    note wf1 = merge_pair_wf[OF wf G g1 ne]
    note st1 = merge_pair_set[OF wf G g1 ne]
    note fg1 = merge_pair_findgroup[OF wf G g1 ne]
    have fresh: "?G1 \<notin> set reg" by (rule TensorProduct_fresh[OF wf Gin g1in ne])
    have G1: "findgroup ?reg1 q0 = Some ?G1" using fg1[of q0] q0G by simp
    have qsa1: "set qs \<subseteq> allocated ?reg1"
      using qsa by (simp add: merge_pair_allocated[OF wf G g1 ne])
    have tr: "stores_in_order [?G1] (map ?f1 qs) = ?hs'"
    proof (rule stores_in_order_transfer)
      show "\<forall>q'\<in>set qs. (?f q' \<in> {G, g1} \<longrightarrow> ?f1 q' = ?G1) \<and>
                        (?f q' \<notin> {G, g1} \<longrightarrow> ?f1 q' = ?f q' \<and> ?f q' \<noteq> ?G1)"
      proof (intro ballI conjI impI)
        fix q' assume q': "q' \<in> set qs"
        then obtain h where h: "findgroup reg q' = Some h"
          using findgroup_allocated[of q' reg] qsa by blast
        then have hin: "h \<in> set reg" and qh: "q' \<in> set (qVec h)"
          using findgroup_SomeD by blast+
        {
          assume "?f q' \<in> {G, g1}"
          then have "q' \<in> set (qVec G) \<union> set (qVec g1)" using h qh by auto
          then show "?f1 q' = ?G1" using fg1[of q'] by simp
        }
        {
          assume nin: "?f q' \<notin> {G, g1}"
          have "q' \<notin> set (qVec G)"
          proof
            assume "q' \<in> set (qVec G)"
            then have "findgroup reg q' = Some G" by (rule findgroup_unique[OF wf Gin])
            then show False using nin by simp
          qed
          moreover have "q' \<notin> set (qVec g1)"
          proof
            assume "q' \<in> set (qVec g1)"
            then have "findgroup reg q' = Some g1" by (rule findgroup_unique[OF wf g1in])
            then show False using nin by simp
          qed
          ultimately show "?f1 q' = ?f q'" using fg1[of q'] by simp
          show "?f q' \<noteq> ?G1" using h hin fresh by auto
        }
      qed
    qed simp_all
    have so: "stores_in_order [G] (map ?f (q # qs)) = g1 # ?hs'"
      using g1 ne by simp
    note IH = Cons.IH[OF wf1 G1 qsa1, unfolded tr]
    have fo: "foldl TensorProduct G (g1 # ?hs') = foldl TensorProduct ?G1 ?hs'" by simp
    have c1: "wf_registry (merge_all reg q0 (q # qs))" using IH by simp
    have c2: "set (merge_all reg q0 (q # qs))
               = (set reg - ({G} \<union> set (g1 # ?hs'))) \<union> {foldl TensorProduct G (g1 # ?hs')}"
    proof -
      have "set (merge_all reg q0 (q # qs))
              = (set ?reg1 - ({?G1} \<union> set ?hs')) \<union> {foldl TensorProduct ?G1 ?hs'}"
        using IH by simp
      also have "set ?reg1 - ({?G1} \<union> set ?hs') = set reg - ({G} \<union> set (g1 # ?hs'))"
        unfolding st1 using fresh by auto
      finally show ?thesis unfolding fo .
    qed
    have c3: "\<forall>q'. findgroup (merge_all reg q0 (q # qs)) q' =
            (if q' \<in> set (qVec G) \<union> set (concat (map qVec (g1 # ?hs')))
             then Some (foldl TensorProduct G (g1 # ?hs'))
             else findgroup reg q')"
    proof
      fix q'
      have "findgroup (merge_all reg q0 (q # qs)) q' =
            (if q' \<in> set (qVec ?G1) \<union> set (concat (map qVec ?hs'))
             then Some (foldl TensorProduct ?G1 ?hs')
             else findgroup ?reg1 q')"
        using IH by simp
      then show "findgroup (merge_all reg q0 (q # qs)) q' =
            (if q' \<in> set (qVec G) \<union> set (concat (map qVec (g1 # ?hs')))
             then Some (foldl TensorProduct G (g1 # ?hs'))
             else findgroup reg q')"
        unfolding fo using fg1[of q'] by auto
    qed
    show ?thesis unfolding so using c1 c2 c3 by blast
  qed
qed


lemma kron_nth_divmod:
  assumes j: "j < length a * length b"
  shows "kron a b ! j = a ! (j mod length a) * b ! (j div length a)"
proof -
  have pos: "0 < length a" using j by (cases "length a") simp_all
  have i0: "j mod length a < length a" using pos by simp
  have i1: "j div length a < length b"
    using j by (simp add: less_mult_imp_div_less mult.commute)
  have "j = j mod length a + length a * (j div length a)" by simp
  then have "kron a b ! j = kron a b ! (j mod length a + length a * (j div length a))" by simp
  also have "\<dots> = a ! (j mod length a) * b ! (j div length a)"
    by (rule kron_nth[OF i0 i1])
  finally show ?thesis .
qed

lemma split_index:
  fixes i :: nat
  shows "(i mod (2 ^ k * 2 ^ l)) mod 2 ^ k = i mod 2 ^ k"
    and "(i mod (2 ^ k * 2 ^ l)) div 2 ^ k = (i div 2 ^ k) mod 2 ^ l"
    and "(i div 2 ^ k) div 2 ^ l = i div (2 ^ k * 2 ^ l)"
proof -
  show "(i mod (2 ^ k * 2 ^ l)) mod 2 ^ k = i mod 2 ^ k"
    by (rule mod_mod_cancel) simp
  have "i mod (2 ^ k * 2 ^ l) = 2 ^ k * (i div 2 ^ k mod 2 ^ l) + i mod 2 ^ k"
    by (rule mod_mult2_eq)
  then show "(i mod (2 ^ k * 2 ^ l)) div 2 ^ k = (i div 2 ^ k) mod 2 ^ l"
    by simp
  show "(i div 2 ^ k) div 2 ^ l = i div (2 ^ k * 2 ^ l)"
    by (simp add: div_mult2_eq)
qed

lemma foldl_TensorProduct_amplitude:
  assumes "store_ok G" and "\<forall>h\<in>set hs. store_ok h"
    and "i < 2 ^ length (qVec (foldl TensorProduct G hs))"
  shows "qstate (foldl TensorProduct G hs) ! i = kron_amplitude (G # hs) i"
  using assms
proof (induction hs arbitrary: G)
  case Nil
  then show ?case by simp
next
  case (Cons h hs)
  let ?kG = "length (qVec G)" and ?kh = "length (qVec h)"
  let ?j = "i mod (2 ^ ?kG * 2 ^ ?kh)"
  have okh: "store_ok h" and oks: "\<forall>x\<in>set hs. store_ok x" using Cons.prems(2) by simp_all
  have okT: "store_ok (TensorProduct G h)" by (rule TensorProduct_ok[OF Cons.prems(1) okh])
  have lG: "length (qstate G) = 2 ^ ?kG" and lh: "length (qstate h) = 2 ^ ?kh"
    using Cons.prems(1) okh by (simp_all add: store_ok_def)
  have bound: "i < 2 ^ length (qVec (foldl TensorProduct (TensorProduct G h) hs))"
    using Cons.prems(3) by simp
  have jlt: "?j < length (qstate G) * length (qstate h)" unfolding lG lh by simp
  have "qstate (foldl TensorProduct G (h # hs)) ! i
        = kron_amplitude (TensorProduct G h # hs) i"
    using Cons.IH[OF okT oks bound] by simp
  also have "\<dots> = kron (qstate G) (qstate h) ! ?j * kron_amplitude hs (i div (2 ^ ?kG * 2 ^ ?kh))"
    by (simp add: power_add)
  also have "kron (qstate G) (qstate h) ! ?j
        = qstate G ! (?j mod 2 ^ ?kG) * qstate h ! (?j div 2 ^ ?kG)"
    using kron_nth_divmod[OF jlt] unfolding lG .
  also have "?j mod 2 ^ ?kG = i mod 2 ^ ?kG" by (rule split_index(1))
  also have "?j div 2 ^ ?kG = (i div 2 ^ ?kG) mod 2 ^ ?kh" by (rule split_index(2))
  also have "i div (2 ^ ?kG * 2 ^ ?kh) = (i div 2 ^ ?kG) div 2 ^ ?kh" by (rule split_index(3)[symmetric])
  finally show ?case by (simp add: mult.assoc)
qed

lemma stores_in_order_set: "set (stores_in_order S xs) = set xs - set S"
  by (induction xs arbitrary: S) auto


lemma distinct_stores_Cons:
  "findgroup reg q0 = Some G \<Longrightarrow>
   distinct_stores reg (q0 # rest)
     = G # stores_in_order [G] (map (\<lambda>q. the (findgroup reg q)) rest)"
  by (simp add: distinct_stores_def)

text \<open>
  Claim C5. In a registry that satisfies the invariant, for a non-empty request of
  allocated qubits, \<open>resolve\<close> returns a store \<open>g\<close> and a registry \<open>reg'\<close> such that:
  when all requested qubits share one store, the registry is unchanged and \<open>g\<close> is that
  store; in every case \<open>g\<close> is the iterated \<open>TensorProduct\<close> of the distinct stores involved
  in the order of the request, its identifier sequence is the concatenation of theirs, and
  its amplitude at every index is the product of the stores' amplitudes at the bit fields
  of that index, so each store keeps its internal bit ordering; the stores of \<open>reg'\<close> are
  those of \<open>reg\<close> without the stores involved, plus \<open>g\<close>; every qubit of a store involved is
  owned by \<open>g\<close> in \<open>reg'\<close> and every other qubit keeps its owner; when the request spans
  several stores none of them is left in \<open>reg'\<close>; and \<open>reg'\<close> satisfies the invariant with
  the same allocated qubits.
\<close>

theorem resolve_kronecker_merge:
  assumes wf: "wf_registry reg" and ne: "qubits \<noteq> []" and al: "set qubits \<subseteq> allocated reg"
  shows "\<exists>g reg'. resolve reg qubits = Inr (g, reg') \<and>
      ((\<forall>q\<in>set qubits. findgroup reg q = findgroup reg (hd qubits))
          \<longrightarrow> reg' = reg \<and> findgroup reg (hd qubits) = Some g) \<and>
      g = foldl TensorProduct (hd (distinct_stores reg qubits)) (tl (distinct_stores reg qubits)) \<and>
      qVec g = concat (map qVec (distinct_stores reg qubits)) \<and>
      (\<forall>i < 2 ^ length (qVec g). qstate g ! i = kron_amplitude (distinct_stores reg qubits) i) \<and>
      set reg' = (set reg - set (distinct_stores reg qubits)) \<union> {g} \<and>
      (\<forall>q. findgroup reg' q =
            (if q \<in> set (concat (map qVec (distinct_stores reg qubits))) then Some g
             else findgroup reg q)) \<and>
      (\<not> (\<forall>q\<in>set qubits. findgroup reg q = findgroup reg (hd qubits))
          \<longrightarrow> set (distinct_stores reg qubits) \<inter> set reg' = {}) \<and>
      wf_registry reg' \<and> allocated reg' = allocated reg"
proof -
  obtain q0 rest where qs: "qubits = q0 # rest" using ne by (cases qubits) auto
  let ?f = "\<lambda>q. the (findgroup reg q)"
  have q0a: "q0 \<in> allocated reg" and resta: "set rest \<subseteq> allocated reg" using al qs by simp_all
  obtain G where G: "findgroup reg q0 = Some G" using findgroup_allocated[OF q0a] by blast
  have Gin: "G \<in> set reg" and q0G: "q0 \<in> set (qVec G)" using findgroup_SomeD[OF G] by simp_all
  let ?hs = "stores_in_order [G] (map ?f rest)"
  let ?g = "foldl TensorProduct G ?hs"
  let ?reg' = "merge_all reg q0 rest"
  have gs: "distinct_stores reg qubits = G # ?hs" unfolding qs by (rule distinct_stores_Cons[OF G])
  note spec = merge_all_spec[OF wf G resta]
  have wf': "wf_registry ?reg'" using spec by blast
  have st: "set ?reg' = (set reg - ({G} \<union> set ?hs)) \<union> {?g}" using spec by blast
  have fg: "\<And>q'. findgroup ?reg' q' =
            (if q' \<in> set (qVec G) \<union> set (concat (map qVec ?hs)) then Some ?g
             else findgroup reg q')" using spec by blast
  have fg0: "findgroup ?reg' q0 = Some ?g" using fg[of q0] q0G by simp
  have no_unknown: "\<not> list_ex (\<lambda>q. findgroup reg q = None) qubits"
    using al by (auto simp: list_ex_iff findgroup_None_iff)
  have res: "resolve reg qubits = Inr (?g, ?reg')"
    using no_unknown fg0 unfolding resolve_def qs by simp
  have ok: "\<And>h. h \<in> set reg \<Longrightarrow> store_ok h" using wf unfolding wf_registry_iff by blast
  have hs_sub: "set ?hs \<subseteq> set reg"
  proof
    fix h assume "h \<in> set ?hs"
    then obtain q where q: "q \<in> set rest" and h: "h = ?f q"
      unfolding stores_in_order_set by auto
    then obtain h' where "findgroup reg q = Some h'"
      using findgroup_allocated[of q reg] resta by blast
    then show "h \<in> set reg" using h findgroup_SomeD by force
  qed
  have shared_iff: "(\<forall>q\<in>set qubits. findgroup reg q = findgroup reg (hd qubits)) \<longleftrightarrow> ?hs = []"
  proof
    assume a: "\<forall>q\<in>set qubits. findgroup reg q = findgroup reg (hd qubits)"
    have "set ?hs = {}" unfolding stores_in_order_set using a G qs by auto
    then show "?hs = []" by simp
  next
    assume e: "?hs = []"
    show "\<forall>q\<in>set qubits. findgroup reg q = findgroup reg (hd qubits)"
    proof
      fix q assume q: "q \<in> set qubits"
      show "findgroup reg q = findgroup reg (hd qubits)"
      proof (cases "q = q0")
        case True
        then show ?thesis using qs by simp
      next
        case False
        then have qr: "q \<in> set rest" using q qs by simp
        then obtain h where h: "findgroup reg q = Some h"
          using findgroup_allocated[of q reg] resta by blast
        have "set ?hs = {}" using e by simp
        then have "?f q = G" unfolding stores_in_order_set using qr by auto
        then show ?thesis using h G qs by simp
      qed
    qed
  qed
  have c_shared: "(\<forall>q\<in>set qubits. findgroup reg q = findgroup reg (hd qubits))
          \<longrightarrow> ?reg' = reg \<and> findgroup reg (hd qubits) = Some ?g"
  proof
    assume a: "\<forall>q\<in>set qubits. findgroup reg q = findgroup reg (hd qubits)"
    then have e: "?hs = []" using shared_iff by simp
    have "\<forall>q\<in>set rest. findgroup reg q = Some G" using a G qs by simp
    then have "?reg' = reg" by (rule merge_all_same[OF G])
    then show "?reg' = reg \<and> findgroup reg (hd qubits) = Some ?g" using e G qs by simp
  qed
  have c_fold: "?g = foldl TensorProduct (hd (distinct_stores reg qubits)) (tl (distinct_stores reg qubits))"
    unfolding gs by simp
  have c_qVec: "qVec ?g = concat (map qVec (distinct_stores reg qubits))"
    unfolding gs by (simp add: foldl_TensorProduct_qVec)
  have c_amp: "\<forall>i < 2 ^ length (qVec ?g). qstate ?g ! i = kron_amplitude (distinct_stores reg qubits) i"
  proof (intro allI impI)
    fix i :: nat assume i: "i < 2 ^ length (qVec ?g)"
    have "\<forall>h\<in>set ?hs. store_ok h" using hs_sub ok by blast
    then show "qstate ?g ! i = kron_amplitude (distinct_stores reg qubits) i"
      unfolding gs using foldl_TensorProduct_amplitude[OF ok[OF Gin] _ i] by blast
  qed
  have c_set: "set ?reg' = (set reg - set (distinct_stores reg qubits)) \<union> {?g}"
    unfolding gs st by auto
  have c_fg: "\<forall>q. findgroup ?reg' q =
            (if q \<in> set (concat (map qVec (distinct_stores reg qubits))) then Some ?g
             else findgroup reg q)"
    unfolding gs using fg by simp
  have c_disc: "\<not> (\<forall>q\<in>set qubits. findgroup reg q = findgroup reg (hd qubits))
          \<longrightarrow> set (distinct_stores reg qubits) \<inter> set ?reg' = {}"
  proof
    assume "\<not> (\<forall>q\<in>set qubits. findgroup reg q = findgroup reg (hd qubits))"
    then have "?hs \<noteq> []" using shared_iff by simp
    then obtain h where h: "h \<in> set ?hs" by (cases ?hs) auto
    then have "qVec h \<noteq> []" using hs_sub ok[of h] by (auto simp: store_ok_def)
    then have longer: "concat (map qVec ?hs) \<noteq> []" using h by auto
    have gnot: "?g \<notin> set reg"
    proof
      assume gin: "?g \<in> set reg"
      have "q0 \<in> set (qVec ?g)" using q0G by (simp add: foldl_TensorProduct_qVec)
      then have "findgroup reg q0 = Some ?g" by (rule findgroup_unique[OF wf gin])
      then have "?g = G" using G by simp
      then have "qVec ?g = qVec G" by simp
      then show False using longer by (simp add: foldl_TensorProduct_qVec)
    qed
    have "set (distinct_stores reg qubits) \<subseteq> set reg" unfolding gs using Gin hs_sub by simp
    then show "set (distinct_stores reg qubits) \<inter> set ?reg' = {}"
      unfolding c_set using gnot by auto
  qed
  have c_alloc: "allocated ?reg' = allocated reg"
  proof (rule set_eqI)
    fix q
    have "q \<in> allocated ?reg' \<longleftrightarrow> findgroup ?reg' q \<noteq> None" by (simp add: findgroup_None_iff)
    also have "\<dots> \<longleftrightarrow> findgroup reg q \<noteq> None"
    proof (cases "q \<in> set (qVec G) \<union> set (concat (map qVec ?hs))")
      case True
      then obtain h where "h \<in> set reg" "q \<in> set (qVec h)" using Gin hs_sub by auto
      then have "findgroup reg q = Some h" using findgroup_unique[OF wf] by blast
      then show ?thesis using fg[of q] True by simp
    next
      case False
      then show ?thesis using fg[of q] by simp
    qed
    also have "\<dots> \<longleftrightarrow> q \<in> allocated reg" by (simp add: findgroup_None_iff)
    finally show "q \<in> allocated ?reg' \<longleftrightarrow> q \<in> allocated reg" .
  qed
  show ?thesis
    apply (rule exI[of _ ?g])
    apply (rule exI[of _ ?reg'])
    apply (intro conjI)
    apply (rule res)
    apply (rule c_shared)
    apply (rule c_fold)
    apply (rule c_qVec)
    apply (rule c_amp)
    apply (rule c_set)
    apply (rule c_fg)
    apply (rule c_disc)
    apply (rule wf')
    apply (rule c_alloc)
    done
qed

text \<open>
  The theorem at a concrete registry of three one-qubit stores: the request \<open>[2, 0]\<close>
  merges the stores of qubits 2 and 0 and leaves the store of qubit 1.
\<close>

theorem resolve_kronecker_merge_witness:
  "wf_registry [\<lparr>qVec = [0], qstate = [1, 0]\<rparr>, \<lparr>qVec = [1], qstate = [0, 1]\<rparr>,
                \<lparr>qVec = [2], qstate = [\<i>, 0]\<rparr>]
   \<and> resolve [\<lparr>qVec = [0], qstate = [1, 0]\<rparr>, \<lparr>qVec = [1], qstate = [0, 1]\<rparr>,
                \<lparr>qVec = [2], qstate = [\<i>, 0]\<rparr>] [2, 0]
       = Inr (\<lparr>qVec = [2, 0], qstate = [\<i>, 0, 0, 0]\<rparr>,
              [\<lparr>qVec = [1], qstate = [0, 1]\<rparr>, \<lparr>qVec = [2, 0], qstate = [\<i>, 0, 0, 0]\<rparr>])
   \<and> wf_registry [\<lparr>qVec = [1], qstate = [0, 1]\<rparr>, \<lparr>qVec = [2, 0], qstate = [\<i>, 0, 0, 0]\<rparr>]
   \<and> allocated [\<lparr>qVec = [1], qstate = [0, 1]\<rparr>, \<lparr>qVec = [2, 0], qstate = [\<i>, 0, 0, 0]\<rparr>] = {0, 1, 2}"
proof -
  let ?R = "[\<lparr>qVec = [0], qstate = [1, 0]\<rparr>, \<lparr>qVec = [1], qstate = [0, 1]\<rparr>,
             \<lparr>qVec = [2], qstate = [\<i>, 0]\<rparr>]"
  let ?M = "\<lparr>qVec = [2, 0], qstate = [\<i>, 0, 0, 0]\<rparr>"
  let ?R' = "[\<lparr>qVec = [1], qstate = [0, 1]\<rparr>, ?M]"
  have wf: "wf_registry ?R" by (simp add: wf_registry_def)
  have ne: "[2, 0::nat] \<noteq> []" by simp
  have al: "allocated ?R = {0, 1, 2}" by (auto simp: allocated_def)
  then have sub: "set [2, 0] \<subseteq> allocated ?R" by simp
  have run: "resolve ?R [2, 0] = Inr (?M, ?R')"
    by (simp add: resolve_def merge_pair_def findgroup_def TensorProduct_def kron_def)
  from resolve_kronecker_merge[OF wf ne sub] obtain g reg' where
    r: "resolve ?R [2, 0] = Inr (g, reg')" and w: "wf_registry reg'"
    and a: "allocated reg' = allocated ?R"
    by blast
  from r run have "reg' = ?R'" by simp
  with w a al have "wf_registry ?R'" "allocated ?R' = {0, 1, 2}" by simp_all
  with wf run show ?thesis by simp
qed

end
